theory Spec2Isabelle
  imports Main "HOL-Library.AList" "HOL-Library.Sublist"
begin

section \<open>Values, bundle descriptions and the collaborator store\<close>

text \<open>
  The graph replay engine \<^verbatim>\<open>mimic_bundles\<close> of \<^verbatim>\<open>codalab/lib/bundle_util.py\<close>.
  A bundle uuid is a Python string, and the places that hold one may also hold
  \<^verbatim>\<open>None\<close> (the \<^verbatim>\<open>old_output\<close> argument, the \<^verbatim>\<open>uuid\<close> of a dry-run description).
\<close>

datatype ident = NoId | Id string

text \<open>Python truthiness of a uuid-or-None, as in \<^verbatim>\<open>if old_output:\<close>.\<close>

definition truthy_id :: "ident \<Rightarrow> bool" where
  "truthy_id u = (case u of NoId \<Rightarrow> False | Id s \<Rightarrow> s \<noteq> [])"

definition str_id :: "ident \<Rightarrow> string" where
  "str_id u = (case u of NoId \<Rightarrow> ''None'' | Id s \<Rightarrow> s)"

text \<open>JSON values of metadata fields, with Python's truthiness.\<close>

datatype jval = JNull | JBool bool | JInt int | JStr string | JList "jval list"

fun truthy :: "jval \<Rightarrow> bool" where
  "truthy JNull = False"
| "truthy (JBool b) = b"
| "truthy (JInt i) = (i \<noteq> 0)"
| "truthy (JStr s) = (s \<noteq> [])"
| "truthy (JList xs) = (xs \<noteq> [])"

text \<open>The exceptions the engine can raise, as values.\<close>

datatype error =
    KeyError string
  | TypeError string
  | UsageError string
  | UnboundLocalError string

text \<open>
  A run of the engine either returns a value with the state reached, raises (the state
  reached is kept: calls made against the store are not undone), or exhausts the
  recursion budget, which stands for a recursion that does not return.
\<close>

datatype ('a, 's) outcome = Ok 'a 's | Err error 's | OutOfFuel

record dependency =
  parent_uuid :: ident
  parent_path :: string
  child_uuid :: ident
  child_path :: string
  dep_other :: "(string \<times> jval) list"

text \<open>
  A bundle description (the dict of a bundle info). \<open>state_details = None\<close> is the key
  being absent. \<open>uuid = NoId\<close> and \<open>json_id = NoId\<close> stand for the key popped or set
  to \<^verbatim>\<open>None\<close>: the engine reads \<^verbatim>\<open>uuid\<close> only from descriptions of the store and
  after it has set it. Dicts are association lists in insertion order.
\<close>

record bundle_info =
  uuid :: ident
  json_id :: ident
  bundle_type :: string
  command :: "string option"
  metadata :: "(string \<times> jval) list"
  dependencies :: "dependency list"
  state_details :: "jval option"
  other_fields :: "(string \<times> jval) list"

text \<open>An entry of \<^verbatim>\<open>cls.METADATA_SPECS\<close>: only \<^verbatim>\<open>key\<close> and \<^verbatim>\<open>generated\<close> are read.\<close>

record metadata_spec =
  key :: string
  generated :: bool

datatype item_kind = TYPE_BUNDLE | TYPE_MARKUP | TYPE_DIRECTIVE | TYPE_OTHER string

record item =
  item_type :: item_kind
  item_value :: "string option"
  item_bundle :: ident
  item_worksheet :: ident

record create_params =
  param_worksheet :: ident
  param_shadow :: "ident option"
  param_detached :: "bool option"

datatype fetch_params = Specs ident | SpecsDepth "ident list" int

text \<open>Every call the engine makes against the store, in order.\<close>

datatype call =
    FetchBundles fetch_params
  | FetchBundle ident
  | SearchBundles "string option" "(string \<times> ident) list"
  | CreateBundle bundle_info create_params
  | FetchWorksheets string
  | FetchWorksheet ident
  | CreateItem item ident

text \<open>
  The collaborator store (\<^verbatim>\<open>JsonApiClient\<close>, not part of the engine): each response
  is a function of the calls made so far and of the request. The store answers every
  call: a failure of the transport or a refusal of the store is raised by the client,
  not by the engine, and is outside this model.
\<close>

record client =
  fetch_bundles :: "call list \<Rightarrow> fetch_params \<Rightarrow> bundle_info list"
  fetch_bundle :: "call list \<Rightarrow> ident \<Rightarrow> bundle_info"
  search_bundles :: "call list \<Rightarrow> string option \<Rightarrow> (string \<times> ident) list \<Rightarrow> bundle_info list"
  create_bundle :: "call list \<Rightarrow> bundle_info \<Rightarrow> create_params \<Rightarrow> bundle_info"
  fetch_worksheets :: "call list \<Rightarrow> string \<Rightarrow> ident list"
  fetch_worksheet :: "call list \<Rightarrow> ident \<Rightarrow> item list"

record args =
  old_inputs :: "ident list"
  old_output :: ident
  new_inputs :: "ident list"
  new_output_name :: "string option"
  worksheet_uuid :: ident
  depth :: int
  shadow :: bool
  dry_run :: bool
  metadata_override :: "(string \<times> jval) list"
  skip_prelude :: bool
  memoize :: bool

text \<open>
  What \<^verbatim>\<open>recurse\<close> closes over and does not change: the arguments, the client, the
  schema table behind \<^verbatim>\<open>get_bundle_subclass(t).METADATA_SPECS\<close> (of \<^verbatim>\<open>codalab.bundles\<close>,
  a parameter here, with a schema for every bundle type) and the cache \<^verbatim>\<open>infos\<close> as
  the ancestor collection left it.
\<close>

record env =
  args :: args
  client :: client
  METADATA_SPECS :: "string \<Rightarrow> metadata_spec list"
  infos :: "(ident \<times> bundle_info) list"

text \<open>What \<^verbatim>\<open>recurse\<close> mutates, and the log of the calls against the store.\<close>

record rstate =
  old_to_new :: "ident \<rightharpoonup> ident"
  downstream :: "ident set"
  created_uuids :: "ident set"
  plan :: "(bundle_info \<times> bundle_info) list"
  calls :: "call list"

section \<open>Building the new description\<close>

text \<open>
  \<^verbatim>\<open>if new_output_name:\<close> rewrites the name: the designated output gets the name itself,
  any other node the name followed by a dash and the old name (a missing old name is a
  KeyError, one that is no string a TypeError).
\<close>

definition rename :: "args \<Rightarrow> ident \<Rightarrow> bundle_info \<Rightarrow> (string \<times> jval) list
    \<Rightarrow> error + (string \<times> jval) list" where
  "rename a old_bundle_uuid old_info new_metadata =
     (case new_output_name a of
        None \<Rightarrow> Inr new_metadata
      | Some n \<Rightarrow>
          if n = [] then Inr new_metadata
          else if old_bundle_uuid = old_output a
          then Inr (AList.update ''name'' (JStr n) new_metadata)
          else (case map_of (metadata old_info) ''name'' of
                  None \<Rightarrow> Inl (KeyError ''name'')
                | Some (JStr old_name) \<Rightarrow>
                    Inr (AList.update ''name'' (JStr (n @ ''-'' @ old_name)) new_metadata)
                | Some _ \<Rightarrow> Inl (TypeError ''can only concatenate str to str'')))"

text \<open>
  A run bundle with a truthy \<^verbatim>\<open>docker_image\<close> gets it as \<^verbatim>\<open>request_docker_image\<close>.
\<close>

definition copy_docker_image :: "string \<Rightarrow> (string \<times> jval) list \<Rightarrow> (string \<times> jval) list" where
  "copy_docker_image btype new_metadata =
     (case map_of new_metadata ''docker_image'' of
        None \<Rightarrow> new_metadata
      | Some img \<Rightarrow>
          if btype = ''run'' \<and> truthy img
          then AList.update ''request_docker_image'' img new_metadata
          else new_metadata)"

text \<open>One round of \<^verbatim>\<open>for spec in cls.METADATA_SPECS\<close>: delete a generated key, then override.\<close>

definition apply_spec :: "(string \<times> jval) list \<Rightarrow> (string \<times> jval) list \<Rightarrow> metadata_spec
    \<Rightarrow> (string \<times> jval) list" where
  "apply_spec override new_metadata spec =
     (let md = (if generated spec \<and> map_of new_metadata (key spec) \<noteq> None
                then AList.delete (key spec) new_metadata else new_metadata)
      in case map_of override (key spec) of
           None \<Rightarrow> md
         | Some v \<Rightarrow> AList.update (key spec) v md)"

definition apply_specs :: "(string \<times> jval) list \<Rightarrow> metadata_spec list \<Rightarrow> (string \<times> jval) list
    \<Rightarrow> (string \<times> jval) list" where
  "apply_specs override specs new_metadata = foldl (apply_spec override) new_metadata specs"

text \<open>
  The new description of a node that needs a new bundle, up to the memo lookup: a copy
  of the old one without \<^verbatim>\<open>uuid\<close>, \<^verbatim>\<open>id\<close> and \<^verbatim>\<open>state_details\<close> (popped with no
  default: a KeyError when absent), with the rewritten metadata and the new dependencies.
\<close>

definition build_new_info :: "env \<Rightarrow> ident \<Rightarrow> bundle_info \<Rightarrow> dependency list
    \<Rightarrow> error + bundle_info" where
  "build_new_info E old_bundle_uuid old_info new_dependencies =
     (case state_details old_info of
        None \<Rightarrow> Inl (KeyError ''state_details'')
      | Some _ \<Rightarrow>
          (case rename (args E) old_bundle_uuid old_info (metadata old_info) of
             Inl e \<Rightarrow> Inl e
           | Inr md1 \<Rightarrow>
               Inr (old_info\<lparr>uuid := NoId, json_id := NoId, state_details := None,
                     metadata := apply_specs (metadata_override (args E))
                                   (METADATA_SPECS E (bundle_type old_info))
                                   (copy_docker_image (bundle_type old_info) md1),
                     dependencies := new_dependencies\<rparr>)))"

section \<open>The substitution routine\<close>

text \<open>
  \<^verbatim>\<open>lone_output or downstream_of_inputs\<close>, read after the dependencies were resolved.
\<close>

definition lone_output :: "env \<Rightarrow> ident \<Rightarrow> bool" where
  "lone_output E old_bundle_uuid =
     (length (old_inputs (args E)) = 0 \<and> old_bundle_uuid = old_output (args E))"

definition downstream_of_inputs :: "rstate \<Rightarrow> bundle_info \<Rightarrow> bool" where
  "downstream_of_inputs s old_info =
     (\<exists>dep \<in> set (dependencies old_info). parent_uuid dep \<in> downstream s)"

definition needs_new :: "env \<Rightarrow> rstate \<Rightarrow> ident \<Rightarrow> bundle_info \<Rightarrow> bool" where
  "needs_new E s old_bundle_uuid old_info =
     (lone_output E old_bundle_uuid \<or> downstream_of_inputs s old_info)"

text \<open>The memo lookup (a fetch, made whenever \<^verbatim>\<open>memoize\<close> is set, also in a dry run).\<close>

definition dependency_shape :: "dependency list \<Rightarrow> (string \<times> ident) list" where
  "dependency_shape deps = map (\<lambda>dep. (child_path dep, parent_uuid dep)) deps"

definition fetch_memoized :: "env \<Rightarrow> bundle_info \<Rightarrow> dependency list \<Rightarrow> rstate
    \<Rightarrow> bundle_info list \<times> rstate" where
  "fetch_memoized E old_info new_dependencies s =
     (if memoize (args E)
      then (search_bundles (client E) (calls s) (command old_info)
              (dependency_shape new_dependencies),
            s\<lparr>calls := calls s @ [SearchBundles (command old_info)
                                    (dependency_shape new_dependencies)]\<rparr>)
      else ([], s))"

definition bundle_params :: "env \<Rightarrow> bundle_info \<Rightarrow> create_params" where
  "bundle_params E old_info =
     (if shadow (args E)
      then \<lparr>param_worksheet = worksheet_uuid (args E), param_shadow = Some (uuid old_info),
            param_detached = None\<rparr>
      else \<lparr>param_worksheet = worksheet_uuid (args E), param_shadow = None,
            param_detached = Some True\<rparr>)"

text \<open>The message of the usage error, \<^verbatim>\<open>'Can\'t mimic %s since it is not make or run'\<close>.\<close>

definition not_make_or_run :: "ident \<Rightarrow> string" where
  "not_make_or_run old_bundle_uuid =
     ''Can't mimic '' @ str_id old_bundle_uuid @ '' since it is not make or run''"

text \<open>
  The three branches \<^verbatim>\<open>if dry_run / elif memoize and len(memoized_bundles) > 0 / else\<close>:
  the final new description, and the create call when one is made.
\<close>

definition create_or_reuse :: "env \<Rightarrow> ident \<Rightarrow> bundle_info \<Rightarrow> bundle_info \<Rightarrow> rstate
    \<Rightarrow> (bundle_info, rstate) outcome" where
  "create_or_reuse E old_bundle_uuid old_info new_info s0 =
     (case fetch_memoized E old_info (dependencies new_info) s0 of
        (memoized_bundles, s) \<Rightarrow>
          if dry_run (args E) then Ok (new_info\<lparr>uuid := NoId\<rparr>) s
          else if memoize (args E) \<and> length memoized_bundles > 0
          then Ok (last memoized_bundles) s
          else if bundle_type new_info \<noteq> ''make'' \<and> bundle_type new_info \<noteq> ''run''
          then Err (UsageError (not_make_or_run old_bundle_uuid)) s
          else Ok (create_bundle (client E) (calls s) new_info (bundle_params E old_info))
                 (s\<lparr>calls := calls s @ [CreateBundle new_info (bundle_params E old_info)]\<rparr>))"

text \<open>The bookkeeping after the final description is known, and the caching of the result.\<close>

definition record_new :: "ident \<Rightarrow> bundle_info \<Rightarrow> bundle_info \<Rightarrow> rstate \<Rightarrow> (ident, rstate) outcome" where
  "record_new old_bundle_uuid old_info new_info s =
     (let new_bundle_uuid = uuid new_info
      in Ok new_bundle_uuid
           (s\<lparr>plan := plan s @ [(old_info, new_info)],
              downstream := insert old_bundle_uuid (downstream s),
              created_uuids := insert new_bundle_uuid (created_uuids s),
              old_to_new := (old_to_new s)(old_bundle_uuid \<mapsto> new_bundle_uuid)\<rparr>))"

definition make_new :: "env \<Rightarrow> ident \<Rightarrow> bundle_info \<Rightarrow> dependency list \<Rightarrow> rstate
    \<Rightarrow> (ident, rstate) outcome" where
  "make_new E old_bundle_uuid old_info new_dependencies s =
     (case build_new_info E old_bundle_uuid old_info new_dependencies of
        Inl e \<Rightarrow> Err e s
      | Inr new_info \<Rightarrow>
          (case create_or_reuse E old_bundle_uuid old_info new_info s of
             Ok new_info' s' \<Rightarrow> record_new old_bundle_uuid old_info new_info' s'
           | Err e s' \<Rightarrow> Err e s'
           | OutOfFuel \<Rightarrow> OutOfFuel))"

text \<open>
  The list comprehension building \<^verbatim>\<open>new_dependencies\<close>: one recursive call per
  dependency, in order, each on the state the previous one left.
\<close>

primrec resolve_deps :: "(ident \<Rightarrow> rstate \<Rightarrow> (ident, rstate) outcome) \<Rightarrow> dependency list
    \<Rightarrow> rstate \<Rightarrow> (dependency list, rstate) outcome" where
  "resolve_deps rec [] s = Ok [] s"
| "resolve_deps rec (dep # deps) s =
     (case rec (parent_uuid dep) s of
        Ok p s1 \<Rightarrow>
          (case resolve_deps rec deps s1 of
             Ok new_deps s2 \<Rightarrow>
               Ok (\<lparr>parent_uuid = p, parent_path = parent_path dep,
                     child_uuid = child_uuid dep, child_path = child_path dep,
                     dep_other = []\<rparr> # new_deps) s2
           | Err e s2 \<Rightarrow> Err e s2
           | OutOfFuel \<Rightarrow> OutOfFuel)
      | Err e s1 \<Rightarrow> Err e s1
      | OutOfFuel \<Rightarrow> OutOfFuel)"

text \<open>The body of \<^verbatim>\<open>recurse\<close>, with its recursive calls made through \<open>rec\<close>.\<close>

definition recurse_body :: "env \<Rightarrow> (ident \<Rightarrow> rstate \<Rightarrow> (ident, rstate) outcome) \<Rightarrow> ident
    \<Rightarrow> rstate \<Rightarrow> (ident, rstate) outcome" where
  "recurse_body E rec old_bundle_uuid s =
     (case old_to_new s old_bundle_uuid of
        Some new_bundle_uuid \<Rightarrow> Ok new_bundle_uuid s
      | None \<Rightarrow>
          (case map_of (infos E) old_bundle_uuid of
             None \<Rightarrow> Ok old_bundle_uuid s
           | Some old_info \<Rightarrow>
               (case resolve_deps rec (dependencies old_info) s of
                  Ok new_dependencies s1 \<Rightarrow>
                    if needs_new E s1 old_bundle_uuid old_info
                    then make_new E old_bundle_uuid old_info new_dependencies s1
                    else Ok old_bundle_uuid
                           (s1\<lparr>old_to_new := (old_to_new s1)(old_bundle_uuid \<mapsto> old_bundle_uuid)\<rparr>)
                | Err e s1 \<Rightarrow> Err e s1
                | OutOfFuel \<Rightarrow> OutOfFuel)))"

text \<open>
  \<^verbatim>\<open>recurse\<close> with a budget on the depth of the recursion: Python gives up at its
  recursion limit, the model at \<open>n\<close> nested calls.
\<close>

primrec recurse :: "env \<Rightarrow> nat \<Rightarrow> ident \<Rightarrow> rstate \<Rightarrow> (ident, rstate) outcome" where
  "recurse E 0 = (\<lambda>old_bundle_uuid s. OutOfFuel)"
| "recurse E (Suc n) = recurse_body E (recurse E n)"

text \<open>The driver loop \<^verbatim>\<open>for uuid in all_bundle_uuids: recurse(uuid)\<close>.\<close>

primrec recurse_all :: "env \<Rightarrow> nat \<Rightarrow> ident list \<Rightarrow> rstate \<Rightarrow> (unit, rstate) outcome" where
  "recurse_all E n [] s = Ok () s"
| "recurse_all E n (u # us) s =
     (case recurse E n u s of
        Ok _ s' \<Rightarrow> recurse_all E n us s'
      | Err e s' \<Rightarrow> Err e s'
      | OutOfFuel \<Rightarrow> OutOfFuel)"

definition traverse :: "env \<Rightarrow> nat \<Rightarrow> ident list \<Rightarrow> rstate \<Rightarrow> (unit, rstate) outcome" where
  "traverse E n all_bundle_uuids s =
     (if truthy_id (old_output (args E))
      then (case recurse E n (old_output (args E)) s of
              Ok _ s' \<Rightarrow> Ok () s'
            | Err e s' \<Rightarrow> Err e s'
            | OutOfFuel \<Rightarrow> OutOfFuel)
      else recurse_all E n all_bundle_uuids s)"

section \<open>Collecting the ancestors\<close>

text \<open>
  The body of \<^verbatim>\<open>for bundle_uuid in bundle_uuids\<close> in \<^verbatim>\<open>get_self_and_ancestors\<close>,
  on the cache, the visited set, the next batch and the call log.
\<close>

type_synonym collect_state = "(ident \<times> bundle_info) list \<times> ident set \<times> ident list \<times> call list"

definition visit :: "client \<Rightarrow> collect_state \<Rightarrow> ident \<Rightarrow> collect_state" where
  "visit C st bundle_uuid =
     (case st of (infos0, visited, next_bundle_uuids, log) \<Rightarrow>
        if bundle_uuid \<in> visited then st
        else
          (case (case map_of infos0 bundle_uuid of
                   Some info \<Rightarrow> (info, infos0, log)
                 | None \<Rightarrow>
                     (fetch_bundle C log bundle_uuid,
                      AList.update bundle_uuid (fetch_bundle C log bundle_uuid) infos0,
                      log @ [FetchBundle bundle_uuid]))
           of (info, infos1, log1) \<Rightarrow>
             (infos1,
              insert bundle_uuid visited,
              next_bundle_uuids
                @ filter (\<lambda>parent. map_of infos1 parent = None)
                    (map parent_uuid (dependencies info)),
              log1)))"

text \<open>The rounds of \<^verbatim>\<open>for _ in range(depth)\<close>.\<close>

primrec ancestor_rounds :: "client \<Rightarrow> nat \<Rightarrow> ident list \<Rightarrow> ident list
    \<Rightarrow> (ident \<times> bundle_info) list \<Rightarrow> ident set \<Rightarrow> call list
    \<Rightarrow> ident list \<times> (ident \<times> bundle_info) list \<times> call list" where
  "ancestor_rounds C 0 result bundle_uuids infos0 visited log = (result, infos0, log)"
| "ancestor_rounds C (Suc k) result bundle_uuids infos0 visited log =
     (case foldl (visit C) (infos0, visited, [], log) bundle_uuids of
        (infos1, visited1, next_bundle_uuids, log1) \<Rightarrow>
          ancestor_rounds C k (next_bundle_uuids @ result) next_bundle_uuids infos1 visited1 log1)"

definition get_self_and_ancestors :: "client \<Rightarrow> int \<Rightarrow> ident list
    \<Rightarrow> (ident \<times> bundle_info) list \<Rightarrow> call list
    \<Rightarrow> ident list \<times> (ident \<times> bundle_info) list \<times> call list" where
  "get_self_and_ancestors C d bundle_uuids infos0 log =
     ancestor_rounds C (nat d) bundle_uuids bundle_uuids infos0 {} log"

text \<open>The first fetch and \<^verbatim>\<open>infos = {b['uuid']: b for b in infos}\<close>.\<close>

definition initial_params :: "args \<Rightarrow> fetch_params" where
  "initial_params a =
     (if truthy_id (old_output a) then Specs (old_output a)
      else SpecsDepth (old_inputs a) (depth a))"

definition by_uuid :: "bundle_info list \<Rightarrow> (ident \<times> bundle_info) list" where
  "by_uuid bs = foldl (\<lambda>d b. AList.update (uuid b) b d) [] bs"

text \<open>\<^verbatim>\<open>for old, new in zip(old_inputs, new_inputs)\<close> on the empty state.\<close>

definition seed :: "args \<Rightarrow> call list \<Rightarrow> rstate" where
  "seed a log =
     foldl (\<lambda>s (old, new). s\<lparr>old_to_new := (old_to_new s)(old \<mapsto> new),
                              downstream := insert old (downstream s)\<rparr>)
       \<lparr>old_to_new = Map.empty, downstream = {}, created_uuids = {}, plan = [], calls = log\<rparr>
       (zip (old_inputs a) (new_inputs a))"

section \<open>Placing the new bundles on the worksheet\<close>

text \<open>
  \<^verbatim>\<open>anchor_uuid\<close> is assigned in two branches only; reading it when neither ran is an
  UnboundLocalError.
\<close>

definition anchor_uuid :: "args \<Rightarrow> error + ident" where
  "anchor_uuid a =
     (if truthy_id (old_output a) then Inr (old_output a)
      else (case old_inputs a of
              first # _ \<Rightarrow> Inr first
            | [] \<Rightarrow> Inl (UnboundLocalError ''anchor_uuid'')))"

definition bundle_item :: "ident \<Rightarrow> ident \<Rightarrow> item" where
  "bundle_item ws new_bundle_uuid =
     \<lparr>item_type = TYPE_BUNDLE, item_value = None, item_bundle = new_bundle_uuid,
      item_worksheet = ws\<rparr>"

definition in_prelude :: "item \<Rightarrow> bool" where
  "in_prelude it =
     ((item_type it = TYPE_MARKUP \<and> item_value it \<noteq> Some [])
      \<or> item_type it = TYPE_DIRECTIVE)"

text \<open>
  One item of the host worksheet, on the prelude gathered so far, the set of new uuids
  already added and the call log.
\<close>

type_synonym scan_state = "item list \<times> ident set \<times> call list"

definition place_item :: "args \<Rightarrow> rstate \<Rightarrow> scan_state \<Rightarrow> item \<Rightarrow> scan_state" where
  "place_item a s st it =
     (case st of (prelude_items, added, log) \<Rightarrow>
        (case (if item_type it = TYPE_BUNDLE
               then (case old_to_new s (item_bundle it) of
                       None \<Rightarrow> (added, log)
                     | Some new_bundle_uuid \<Rightarrow>
                         if new_bundle_uuid \<in> created_uuids s
                         then (insert new_bundle_uuid added,
                               log
                               @ (if \<not> skip_prelude a
                                  then map (\<lambda>item2. CreateItem
                                              (item2\<lparr>item_worksheet := worksheet_uuid a\<rparr>)
                                              (worksheet_uuid a)) prelude_items
                                  else [])
                               @ [CreateItem (bundle_item (worksheet_uuid a) new_bundle_uuid)
                                    (worksheet_uuid a)])
                         else (added, log))
               else (added, log))
         of (added1, log1) \<Rightarrow>
           (if in_prelude it then prelude_items @ [it] else [], added1, log1)))"

text \<open>The worksheet scan, when some worksheet hosts the anchor.\<close>

definition scan_host :: "env \<Rightarrow> rstate \<Rightarrow> ident list \<Rightarrow> call list \<Rightarrow> ident set \<times> call list" where
  "scan_host E s host_worksheet_uuids log =
     (case host_worksheet_uuids of
        [] \<Rightarrow> ({}, log)
      | first # _ \<Rightarrow>
          (let host_worksheet_uuid =
                 (if worksheet_uuid (args E) \<in> set host_worksheet_uuids
                  then worksheet_uuid (args E) else first)
           in case foldl (place_item (args E) s) ([], {}, log @ [FetchWorksheet host_worksheet_uuid])
                     (fetch_worksheet (client E) log host_worksheet_uuid)
              of (_, added, log1) \<Rightarrow> (added, log1)))"

text \<open>
  The final loop over the plan; \<^verbatim>\<open>'adding: ' + new_bundle_uuid\<close> is a TypeError on
  \<^verbatim>\<open>None\<close>.
\<close>

primrec add_rest :: "ident \<Rightarrow> ident set \<Rightarrow> (bundle_info \<times> bundle_info) list \<Rightarrow> call list
    \<Rightarrow> (unit, call list) outcome" where
  "add_rest ws added [] log = Ok () log"
| "add_rest ws added (entry # rest) log =
     (if uuid (snd entry) \<notin> added
      then (case uuid (snd entry) of
              NoId \<Rightarrow> Err (TypeError ''can only concatenate str to str'') log
            | Id _ \<Rightarrow>
                add_rest ws added rest
                  (log @ [CreateItem (bundle_item ws (uuid (snd entry))) ws]))
      else add_rest ws added rest log)"

definition place :: "env \<Rightarrow> rstate \<Rightarrow> (unit, call list) outcome" where
  "place E s =
     (case anchor_uuid (args E) of
        Inl e \<Rightarrow> Err e (calls s)
      | Inr NoId \<Rightarrow> Err (TypeError ''can only concatenate str to str'') (calls s)
      | Inr (Id anchor) \<Rightarrow>
          (case scan_host E s
                  (fetch_worksheets (client E) (calls s) (''bundle='' @ anchor))
                  (calls s @ [FetchWorksheets (''bundle='' @ anchor)])
           of (added, log) \<Rightarrow> add_rest (worksheet_uuid (args E)) added (plan s) log))"

section \<open>The entry point\<close>

text \<open>The graph phase: the first fetch, the cache and the ancestor closure.\<close>

definition build_graph :: "client \<Rightarrow> args \<Rightarrow> call list
    \<Rightarrow> ident list \<times> (ident \<times> bundle_info) list \<times> call list" where
  "build_graph C a log =
     get_self_and_ancestors C (depth a)
       (map fst (by_uuid (fetch_bundles C log (initial_params a))))
       (by_uuid (fetch_bundles C log (initial_params a)))
       (log @ [FetchBundles (initial_params a)])"

definition replay_env :: "client \<Rightarrow> (string \<Rightarrow> metadata_spec list) \<Rightarrow> args \<Rightarrow> call list \<Rightarrow> env" where
  "replay_env C specs a log =
     \<lparr>args = a, client = C, METADATA_SPECS = specs, infos = fst (snd (build_graph C a log))\<rparr>"

text \<open>The traversal of a whole invocation, from the graph phase on.\<close>

definition replay :: "client \<Rightarrow> (string \<Rightarrow> metadata_spec list) \<Rightarrow> args \<Rightarrow> nat \<Rightarrow> call list
    \<Rightarrow> (unit, rstate) outcome" where
  "replay C specs a n log =
     traverse (replay_env C specs a log) n (fst (build_graph C a log))
       (seed a (snd (snd (build_graph C a log))))"

text \<open>
  \<^verbatim>\<open>mimic_bundles\<close>: the plan and the calls made, an error and the calls made before it,
  or no return. \<open>log\<close> is what was called against the store before the invocation.
\<close>

definition mimic_bundles :: "client \<Rightarrow> (string \<Rightarrow> metadata_spec list) \<Rightarrow> args \<Rightarrow> nat \<Rightarrow> call list
    \<Rightarrow> ((bundle_info \<times> bundle_info) list, call list) outcome" where
  "mimic_bundles C specs a n log =
     (case replay C specs a n log of
        OutOfFuel \<Rightarrow> OutOfFuel
      | Err e s \<Rightarrow> Err e (calls s)
      | Ok _ s \<Rightarrow>
          if \<not> dry_run a \<and> \<not> shadow a
          then (case place (replay_env C specs a log) s of
                  Ok _ log1 \<Rightarrow> Ok (plan s) log1
                | Err e log1 \<Rightarrow> Err e log1
                | OutOfFuel \<Rightarrow> OutOfFuel)
          else Ok (plan s) (calls s))"

section \<open>Reading outcomes and call logs\<close>

text \<open>The state a run ended in, when it ended.\<close>

fun final :: "('a, 's) outcome \<Rightarrow> 's option" where
  "final (Ok v s) = Some s"
| "final (Err e s) = Some s"
| "final OutOfFuel = None"

fun is_create :: "call \<Rightarrow> bool" where
  "is_create (CreateBundle b p) = True"
| "is_create (CreateItem it w) = True"
| "is_create c = False"

definition created_items :: "call list \<Rightarrow> item list" where
  "created_items log = concat (map (\<lambda>c. case c of CreateItem it w \<Rightarrow> [it] | _ \<Rightarrow> []) log)"

definition created_bundles :: "call list \<Rightarrow> bundle_info list" where
  "created_bundles log = concat (map (\<lambda>c. case c of CreateBundle b p \<Rightarrow> [b] | _ \<Rightarrow> []) log)"

text \<open>The bundles that bundle-reference items were created for.\<close>

definition placed_bundles :: "call list \<Rightarrow> ident list" where
  "placed_bundles log =
     map item_bundle (filter (\<lambda>it. item_type it = TYPE_BUNDLE) (created_items log))"

text \<open>The new uuids of the entries of a plan.\<close>

definition new_uuids :: "(bundle_info \<times> bundle_info) list \<Rightarrow> ident list" where
  "new_uuids p = map (\<lambda>entry. uuid (snd entry)) p"

text \<open>
  The calls a traversal makes: memo searches and bundle creations, and no creation in a
  dry run.
\<close>

definition engine_call :: "env \<Rightarrow> call \<Rightarrow> bool" where
  "engine_call E c =
     ((dry_run (args E) \<longrightarrow> \<not> is_create c)
      \<and> ((\<exists>b p. c = CreateBundle b p) \<or> (\<exists>cmd shape. c = SearchBundles cmd shape)))"

text \<open>
  How the state after a call extends the state before it: the log and the plan are
  appended to, the downstream set grows, and the created set stays the set of the new
  uuids of the plan when it was so before.
\<close>

definition grows :: "env \<Rightarrow> rstate \<Rightarrow> rstate \<Rightarrow> bool" where
  "grows E s s' =
     ((\<exists>cs. calls s' = calls s @ cs \<and> (\<forall>c \<in> set cs. engine_call E c))
      \<and> downstream s \<subseteq> downstream s'
      \<and> (\<exists>es. plan s' = plan s @ es)
      \<and> (created_uuids s = set (new_uuids (plan s))
           \<longrightarrow> created_uuids s' = set (new_uuids (plan s'))))"

text \<open>
  With no old inputs and a designated output that is not cached, no node needs a new
  bundle: a call that returns leaves the downstream set empty, the plan and the log as
  they were.
\<close>

definition idle :: "rstate \<Rightarrow> rstate \<Rightarrow> bool" where
  "idle s s' = (downstream s' = {} \<and> plan s' = plan s \<and> calls s' = calls s)"

text \<open>
  Two states of the same shape: the same ids substituted, the same downstream set and
  the same old descriptions in the plan, in order.
\<close>

definition same_shape :: "rstate \<Rightarrow> rstate \<Rightarrow> bool" where
  "same_shape sd sr =
     (dom (old_to_new sd) = dom (old_to_new sr)
      \<and> downstream sd = downstream sr
      \<and> map fst (plan sd) = map fst (plan sr))"

text \<open>The environment of the dry run of an invocation.\<close>

definition dry :: "env \<Rightarrow> env" where
  "dry E = E\<lparr>args := (args E)\<lparr>dry_run := True\<rparr>\<rparr>"

text \<open>
  The ids within \<open>k\<close> steps of the seeds, a step leading from a cached bundle to the
  parent of one of its dependencies.
\<close>

definition parents_of :: "(ident \<times> bundle_info) list \<Rightarrow> ident \<Rightarrow> ident list" where
  "parents_of cache v =
     (case map_of cache v of
        None \<Rightarrow> []
      | Some info \<Rightarrow> map parent_uuid (dependencies info))"

primrec within :: "(ident \<times> bundle_info) list \<Rightarrow> ident list \<Rightarrow> nat \<Rightarrow> ident list" where
  "within cache seeds 0 = seeds"
| "within cache seeds (Suc k) =
     within cache seeds k @ concat (map (parents_of cache) (within cache seeds k))"

section \<open>Example invocations\<close>

text \<open>
  A small store: run bundles \<open>A\<close>, \<open>B\<close> and \<open>C\<close> (\<open>B\<close> depends on \<open>A\<close>, \<open>C\<close> on \<open>B\<close>), a
  dataset \<open>D\<close>, a dataset-typed bundle \<open>F\<close> that depends on \<open>B\<close>, and a bundle \<open>L\<close> that
  lists itself as its parent. The worksheet \<open>W\<close> hosts \<open>A\<close> and \<open>B\<close>.
\<close>

definition mk_dep :: "string \<Rightarrow> string \<Rightarrow> dependency" where
  "mk_dep parent child =
     \<lparr>parent_uuid = Id parent, parent_path = [], child_uuid = Id child,
      child_path = ''in'', dep_other = [(''parent_name'', JStr parent)]\<rparr>"

definition mk_bundle :: "string \<Rightarrow> string \<Rightarrow> string \<Rightarrow> dependency list \<Rightarrow> bundle_info" where
  "mk_bundle u t nm deps =
     \<lparr>uuid = Id u, json_id = Id u, bundle_type = t, command = Some (''sh '' @ nm),
      metadata = [(''name'', JStr nm), (''docker_image'', JStr ''img@sha256''),
                  (''created'', JInt 1)],
      dependencies = deps, state_details = Some (JStr []),
      other_fields = [(''state'', JStr ''ready'')]\<rparr>"

definition example_db :: "(ident \<times> bundle_info) list" where
  "example_db =
     [(Id ''A'', mk_bundle ''A'' ''run'' ''a'' []),
      (Id ''B'', mk_bundle ''B'' ''run'' ''b'' [mk_dep ''A'' ''B'']),
      (Id ''C'', mk_bundle ''C'' ''run'' ''c'' [mk_dep ''B'' ''C'']),
      (Id ''D'', mk_bundle ''D'' ''dataset'' ''d'' []),
      (Id ''F'', mk_bundle ''F'' ''dataset'' ''f'' [mk_dep ''B'' ''F'']),
      (Id ''L'', mk_bundle ''L'' ''run'' ''l'' [mk_dep ''L'' ''L''])]"

definition example_specs :: "string \<Rightarrow> metadata_spec list" where
  "example_specs t =
     [\<lparr>key = ''name'', generated = False\<rparr>,
      \<lparr>key = ''created'', generated = True\<rparr>,
      \<lparr>key = ''request_docker_image'', generated = False\<rparr>,
      \<lparr>key = ''docker_image'', generated = True\<rparr>]"

definition example_items :: "item list" where
  "example_items =
     [\<lparr>item_type = TYPE_MARKUP, item_value = Some ''intro'', item_bundle = NoId,
       item_worksheet = Id ''W''\<rparr>,
      \<lparr>item_type = TYPE_BUNDLE, item_value = None, item_bundle = Id ''A'',
       item_worksheet = Id ''W''\<rparr>,
      \<lparr>item_type = TYPE_MARKUP, item_value = Some [], item_bundle = NoId,
       item_worksheet = Id ''W''\<rparr>,
      \<lparr>item_type = TYPE_BUNDLE, item_value = None, item_bundle = Id ''B'',
       item_worksheet = Id ''W''\<rparr>]"

definition lookup_db :: "ident \<Rightarrow> bundle_info list" where
  "lookup_db u = (case map_of example_db u of Some b \<Rightarrow> [b] | None \<Rightarrow> [])"

text \<open>
  The example client: a created bundle gets the uuid \<open>new-\<close> followed by its name, and a
  search by command and dependencies answers \<open>matches\<close>.
\<close>

definition example_client :: "bundle_info list \<Rightarrow> client" where
  "example_client matches =
     \<lparr>fetch_bundles = (\<lambda>log p. case p of
                          Specs u \<Rightarrow> lookup_db u
                        | SpecsDepth us d \<Rightarrow> concat (map lookup_db us)),
      fetch_bundle = (\<lambda>log u. case map_of example_db u of
                          Some b \<Rightarrow> b
                        | None \<Rightarrow> mk_bundle (str_id u) ''dataset'' ''unknown'' []),
      search_bundles = (\<lambda>log c shape. matches),
      create_bundle = (\<lambda>log info p.
                         info\<lparr>uuid := Id (''new-'' @ (case map_of (metadata info) ''name'' of
                                                         Some (JStr nm) \<Rightarrow> nm
                                                       | _ \<Rightarrow> []))\<rparr>),
      fetch_worksheets = (\<lambda>log kw. [Id ''W'']),
      fetch_worksheet = (\<lambda>log w. example_items)\<rparr>"

definition example_args :: args where
  "example_args =
     \<lparr>old_inputs = [], old_output = NoId, new_inputs = [], new_output_name = None,
      worksheet_uuid = Id ''T'', depth = 0, shadow = False, dry_run = False,
      metadata_override = [], skip_prelude = False, memoize = False\<rparr>"

definition example_env :: "args \<Rightarrow> env" where
  "example_env a =
     \<lparr>args = a, client = example_client [], METADATA_SPECS = example_specs,
      infos = example_db\<rparr>"

definition empty_state :: rstate where
  "empty_state =
     \<lparr>old_to_new = Map.empty, downstream = {}, created_uuids = {}, plan = [], calls = []\<rparr>"

text \<open>
  The same store with one more run bundle \<open>G\<close>, which depends on the dataset-typed \<open>F\<close>.
\<close>

definition nested_db :: "(ident \<times> bundle_info) list" where
  "nested_db = example_db @ [(Id ''G'', mk_bundle ''G'' ''run'' ''g'' [mk_dep ''F'' ''G''])]"

definition nested_client :: client where
  "nested_client =
     (example_client [])
       \<lparr>fetch_bundles := (\<lambda>log p. case p of
                            Specs u \<Rightarrow> (case map_of nested_db u of Some b \<Rightarrow> [b] | None \<Rightarrow> [])
                          | SpecsDepth us d \<Rightarrow> []),
        fetch_bundle := (\<lambda>log u. case map_of nested_db u of
                            Some b \<Rightarrow> b
                          | None \<Rightarrow> mk_bundle (str_id u) ''dataset'' ''unknown'' [])\<rparr>"

section \<open>Unfolding the engine on examples\<close>

lemmas example_defs = example_env_def example_args_def example_client_def example_db_def
  example_specs_def example_items_def mk_bundle_def mk_dep_def lookup_db_def empty_state_def

lemmas nested_defs = nested_db_def nested_client_def

lemmas engine_defs = mimic_bundles_def replay_def traverse_def build_graph_def replay_env_def
  get_self_and_ancestors_def visit_def initial_params_def truthy_id_def by_uuid_def seed_def
  recurse_body_def needs_new_def lone_output_def downstream_of_inputs_def make_new_def
  build_new_info_def rename_def copy_docker_image_def apply_specs_def apply_spec_def
  create_or_reuse_def fetch_memoized_def dependency_shape_def bundle_params_def record_new_def
  place_def anchor_uuid_def scan_host_def place_item_def in_prelude_def bundle_item_def
  created_items_def created_bundles_def placed_bundles_def new_uuids_def Let_def


section \<open>Metadata overrides\<close>

lemma apply_spec_other:
  "key spec \<noteq> k \<Longrightarrow> map_of (apply_spec ov md spec) k = map_of md k"
  by (simp add: apply_spec_def Let_def update_conv' delete_conv' split: option.splits)

lemma apply_spec_overridden:
  "key spec = k \<Longrightarrow> map_of ov k = Some v \<Longrightarrow> map_of (apply_spec ov md spec) k = Some v"
  by (auto simp add: apply_spec_def Let_def update_conv')

lemma apply_spec_dropped:
  "key spec = k \<Longrightarrow> map_of ov k = None \<Longrightarrow> generated spec
     \<Longrightarrow> map_of (apply_spec ov md spec) k = None"
  by (auto simp add: apply_spec_def Let_def delete_conv')

lemma apply_spec_stays_absent:
  "map_of ov k = None \<Longrightarrow> map_of md k = None \<Longrightarrow> map_of (apply_spec ov md spec) k = None"
  by (cases "key spec = k")
     (auto simp add: apply_spec_def Let_def delete_conv' update_conv' split: option.splits)

lemma apply_specs_snoc:
  "apply_specs ov (specs @ [spec]) md = apply_spec ov (apply_specs ov specs md) spec"
  by (simp add: apply_specs_def)

lemma apply_specs_override:
  "k \<in> key ` set specs \<Longrightarrow> map_of ov k = Some v \<Longrightarrow> map_of (apply_specs ov specs md) k = Some v"
proof (induction specs rule: rev_induct)
  case Nil
  then show ?case by simp
next
  case (snoc spec specs)
  show ?case
  proof (cases "key spec = k")
    case True
    with snoc.prems(2) show ?thesis
      by (simp add: apply_specs_snoc apply_spec_overridden)
  next
    case False
    with snoc.prems(1) have "k \<in> key ` set specs" by auto
    with snoc.IH snoc.prems(2) False show ?thesis
      by (simp add: apply_specs_snoc apply_spec_other)
  qed
qed

lemma apply_specs_generated:
  "k \<in> key ` set (filter generated specs) \<Longrightarrow> map_of ov k = None
     \<Longrightarrow> map_of (apply_specs ov specs md) k = None"
proof (induction specs rule: rev_induct)
  case Nil
  then show ?case by simp
next
  case (snoc spec specs)
  show ?case
  proof (cases "key spec = k \<and> generated spec")
    case True
    with snoc.prems(2) show ?thesis
      by (auto simp add: apply_specs_snoc apply_spec_dropped)
  next
    case False
    with snoc.prems(1) have "k \<in> key ` set (filter generated specs)"
      by (auto split: if_splits)
    with snoc.IH snoc.prems(2) have "map_of (apply_specs ov specs md) k = None" by simp
    with snoc.prems(2) show ?thesis
      by (simp add: apply_specs_snoc apply_spec_stays_absent)
  qed
qed

lemma build_new_info_metadata:
  "build_new_info E u old_info nd = Inr new_info \<Longrightarrow>
   \<exists>md. metadata new_info =
     apply_specs (metadata_override (args E)) (METADATA_SPECS E (bundle_type old_info)) md"
  by (auto simp add: build_new_info_def split: option.splits sum.splits)

lemma build_new_info_type:
  "build_new_info E u old_info nd = Inr new_info \<Longrightarrow>
   bundle_type new_info = bundle_type old_info \<and> dependencies new_info = nd"
  by (auto simp add: build_new_info_def split: option.splits sum.splits)

text \<open>
  C4. In the description built for a node that needs a new bundle, a field declared in
  the schema of the bundle type has the value of the caller's override whenever there is
  one: after the deletion of generated fields, after the name rewrite and after the copy
  of the docker image. A generated field with no override is absent. The description
  built is what a dry run puts in the plan (with the uuid unset) and what a real run
  sends to the store when it creates the bundle.
\<close>

theorem override_takes_precedence:
  assumes "build_new_info E u old_info new_dependencies = Inr new_info"
    and "k \<in> key ` set (METADATA_SPECS E (bundle_type old_info))"
  shows "(map_of (metadata_override (args E)) k = Some v
            \<longrightarrow> map_of (metadata new_info) k = Some v)
       \<and> (map_of (metadata_override (args E)) k = None
            \<and> k \<in> key ` set (filter generated (METADATA_SPECS E (bundle_type old_info)))
            \<longrightarrow> map_of (metadata new_info) k = None)
       \<and> (map_of (metadata_override (args E)) k = Some v \<and> dry_run (args E)
            \<longrightarrow> (\<exists>s' planned.
                   make_new E u old_info new_dependencies s = Ok NoId s'
                   \<and> plan s' = plan s @ [(old_info, planned)]
                   \<and> map_of (metadata planned) k = Some v))
       \<and> (map_of (metadata_override (args E)) k = Some v \<and> \<not> dry_run (args E)
            \<and> \<not> (memoize (args E) \<and> fst (fetch_memoized E old_info new_dependencies s) \<noteq> [])
            \<and> (bundle_type old_info = ''make'' \<or> bundle_type old_info = ''run'')
            \<longrightarrow> (\<exists>v' s' sent p.
                   make_new E u old_info new_dependencies s = Ok v' s'
                   \<and> last (calls s') = CreateBundle sent p
                   \<and> map_of (metadata sent) k = Some v))"
proof -
  from assms(1) obtain md where
    md: "metadata new_info =
      apply_specs (metadata_override (args E)) (METADATA_SPECS E (bundle_type old_info)) md"
    using build_new_info_metadata by blast
  have won: "map_of (metadata new_info) k = Some v"
    if "map_of (metadata_override (args E)) k = Some v"
    unfolding md using assms(2) that by (simp add: apply_specs_override)
  have dropped: "map_of (metadata new_info) k = None"
    if "map_of (metadata_override (args E)) k = None"
      "k \<in> key ` set (filter generated (METADATA_SPECS E (bundle_type old_info)))"
    unfolding md using that by (simp add: apply_specs_generated)
  from build_new_info_type [OF assms(1)] have same: "bundle_type new_info = bundle_type old_info"
    "dependencies new_info = new_dependencies" by simp_all
  obtain found t where fm: "fetch_memoized E old_info new_dependencies s = (found, t)"
    by (cases "fetch_memoized E old_info new_dependencies s") blast
  then have t: "plan t = plan s" by (auto simp add: fetch_memoized_def split: if_splits)
  have planned: "\<exists>s' planned.
                   make_new E u old_info new_dependencies s = Ok NoId s'
                   \<and> plan s' = plan s @ [(old_info, planned)]
                   \<and> map_of (metadata planned) k = Some v"
    if "map_of (metadata_override (args E)) k = Some v" "dry_run (args E)"
    using assms(1) same fm t that(2) won [OF that(1)]
    by (simp add: make_new_def create_or_reuse_def record_new_def Let_def)
  have sent: "\<exists>v' s' sent p.
                   make_new E u old_info new_dependencies s = Ok v' s'
                   \<and> last (calls s') = CreateBundle sent p
                   \<and> map_of (metadata sent) k = Some v"
    if "map_of (metadata_override (args E)) k = Some v" "\<not> dry_run (args E)"
      "\<not> (memoize (args E) \<and> fst (fetch_memoized E old_info new_dependencies s) \<noteq> [])"
      "bundle_type old_info = ''make'' \<or> bundle_type old_info = ''run''"
    using assms(1) same fm that(2,3,4) won [OF that(1)]
    by (auto simp add: make_new_def create_or_reuse_def record_new_def Let_def)
  show ?thesis
  proof (intro conjI impI)
    show "map_of (metadata new_info) k = Some v"
      if "map_of (metadata_override (args E)) k = Some v"
      using that by (rule won)
    show "map_of (metadata new_info) k = None"
      if "map_of (metadata_override (args E)) k = None
            \<and> k \<in> key ` set (filter generated (METADATA_SPECS E (bundle_type old_info)))"
      using that by (intro dropped) simp_all
    show "\<exists>s' planned.
                   make_new E u old_info new_dependencies s = Ok NoId s'
                   \<and> plan s' = plan s @ [(old_info, planned)]
                   \<and> map_of (metadata planned) k = Some v"
      if "map_of (metadata_override (args E)) k = Some v \<and> dry_run (args E)"
      using that by (intro planned) simp_all
    show "\<exists>v' s' sent p.
                   make_new E u old_info new_dependencies s = Ok v' s'
                   \<and> last (calls s') = CreateBundle sent p
                   \<and> map_of (metadata sent) k = Some v"
      if "map_of (metadata_override (args E)) k = Some v \<and> \<not> dry_run (args E)
            \<and> \<not> (memoize (args E) \<and> fst (fetch_memoized E old_info new_dependencies s) \<noteq> [])
            \<and> (bundle_type old_info = ''make'' \<or> bundle_type old_info = ''run'')"
      using that by (intro sent) simp_all
  qed
qed

text \<open>
  With the output name \<open>out\<close>, node \<open>B\<close> is not the designated output and would be named
  \<open>out-b\<close>; the override \<open>X\<close> is its name, the overridden generated field \<open>created\<close> is
  kept, and \<open>request_docker_image\<close> is the override, not the copied image.
\<close>

theorem override_takes_precedence_witness:
  "\<exists>new_info.
     build_new_info
       (example_env (example_args\<lparr>new_output_name := Some ''out'',
          metadata_override := [(''name'', JStr ''X''), (''created'', JInt 7),
                                (''request_docker_image'', JStr ''img:latest'')]\<rparr>))
       (Id ''B'') (mk_bundle ''B'' ''run'' ''b'' [mk_dep ''A'' ''B'']) [] = Inr new_info
     \<and> map_of (metadata new_info) ''name'' = Some (JStr ''X'')
     \<and> map_of (metadata new_info) ''created'' = Some (JInt 7)
     \<and> map_of (metadata new_info) ''request_docker_image'' = Some (JStr ''img:latest'')
     \<and> map_of (metadata new_info) ''docker_image'' = None"
proof -
  let ?E = "example_env (example_args\<lparr>new_output_name := Some ''out'',
          metadata_override := [(''name'', JStr ''X''), (''created'', JInt 7),
                                (''request_docker_image'', JStr ''img:latest'')]\<rparr>)"
  let ?B = "mk_bundle ''B'' ''run'' ''b'' [mk_dep ''A'' ''B'']"
  obtain new_info where b: "build_new_info ?E (Id ''B'') ?B [] = Inr new_info"
    by (simp add: build_new_info_def rename_def example_defs)
  have declared: "''name'' \<in> key ` set (METADATA_SPECS ?E (bundle_type ?B))"
    "''created'' \<in> key ` set (METADATA_SPECS ?E (bundle_type ?B))"
    "''request_docker_image'' \<in> key ` set (METADATA_SPECS ?E (bundle_type ?B))"
    "''docker_image'' \<in> key ` set (METADATA_SPECS ?E (bundle_type ?B))"
    by (simp_all add: example_defs)
  have "map_of (metadata new_info) ''name'' = Some (JStr ''X'')"
    using override_takes_precedence [OF b declared(1), of "JStr ''X''", THEN conjunct1]
    by (simp add: example_defs)
  moreover have "map_of (metadata new_info) ''created'' = Some (JInt 7)"
    using override_takes_precedence [OF b declared(2), of "JInt 7", THEN conjunct1]
    by (simp add: example_defs)
  moreover have "map_of (metadata new_info) ''request_docker_image'' = Some (JStr ''img:latest'')"
    using override_takes_precedence [OF b declared(3), of "JStr ''img:latest''", THEN conjunct1]
    by (simp add: example_defs)
  moreover have "map_of (metadata new_info) ''docker_image'' = None"
    using override_takes_precedence [OF b declared(4), of JNull,
        THEN conjunct2, THEN conjunct1]
    by (simp add: example_defs)
  ultimately show ?thesis using b by blast
qed

section \<open>Ids beyond the cache\<close>

text \<open>
  C7 (as the code has it). An id with no entry in the substitution map and no cached
  description is returned as it is, with no error, and the state is the one before the
  call: no call against the store, and no identity entry in the substitution map. An id
  with an entry (an explicit old input, cached or not) returns its entry. With depth 0
  the ancestor collection returns the seed ids and fetches nothing.
\<close>

theorem uncached_id_passes_through:
  "(old_to_new s u = None \<and> map_of (infos E) u = None \<longrightarrow> recurse E (Suc n) u s = Ok u s)
   \<and> (old_to_new s u = Some v \<longrightarrow> recurse E (Suc n) u s = Ok v s)
   \<and> get_self_and_ancestors C 0 us cache log = (us, cache, log)"
  by (simp add: recurse_body_def get_self_and_ancestors_def)

theorem uncached_id_passes_through_witness:
  "recurse (example_env example_args) (Suc 0) (Id ''Z'') empty_state = Ok (Id ''Z'') empty_state
   \<and> recurse (example_env example_args) (Suc 0) (Id ''A'')
        (empty_state\<lparr>old_to_new := [Id ''A'' \<mapsto> Id ''A2'']\<rparr>)
      = Ok (Id ''A2'') (empty_state\<lparr>old_to_new := [Id ''A'' \<mapsto> Id ''A2'']\<rparr>)
   \<and> get_self_and_ancestors (example_client []) 0 [Id ''B''] [] [] = ([Id ''B''], [], [])"
  using uncached_id_passes_through [of empty_state "Id ''Z''" "example_env example_args" 0 NoId
      "example_client []" "[Id ''B'']" "[]" "[]"]
    uncached_id_passes_through [of "empty_state\<lparr>old_to_new := [Id ''A'' \<mapsto> Id ''A2'']\<rparr>"
      "Id ''A''" "example_env example_args" 0 "Id ''A2''" "example_client []" "[]" "[]" "[]"]
  by (simp add: example_defs)

text \<open>
  The claim as stated fails: \<open>Z\<close> is not cached, the call returns \<open>Z\<close>, and the
  substitution map has no entry for \<open>Z\<close> afterwards; and the explicit old input \<open>A\<close>,
  not cached either, returns the new input \<open>A2\<close>, not itself.
\<close>

theorem identity_entry_counterexample:
  "map_of (infos (example_env example_args)) (Id ''Z'') = None
   \<and> (case recurse (example_env example_args) (Suc 0) (Id ''Z'') empty_state of
         Ok v s' \<Rightarrow> v = Id ''Z'' \<and> old_to_new s' (Id ''Z'') = None
       | _ \<Rightarrow> False)
   \<and> map_of (infos (example_env example_args\<lparr>infos := []\<rparr>)) (Id ''A'') = None
   \<and> (case recurse (example_env example_args\<lparr>infos := []\<rparr>) (Suc 0) (Id ''A'')
              (seed (example_args\<lparr>old_inputs := [Id ''A''], new_inputs := [Id ''A2'']\<rparr>) []) of
         Ok v s' \<Rightarrow> v = Id ''A2''
       | _ \<Rightarrow> False)"
  by (simp add: recurse_body_def seed_def example_defs)

section \<open>The transient state details\<close>

text \<open>
  C10. A node that needs a new bundle and whose cached description has no
  \<^verbatim>\<open>state_details\<close> key makes the substitution raise a KeyError for that key, once its
  dependencies are resolved.
\<close>

theorem missing_state_details_raises:
  assumes "old_to_new s u = None"
    and "map_of (infos E) u = Some old_info"
    and "resolve_deps (recurse E n) (dependencies old_info) s = Ok new_dependencies s1"
    and "needs_new E s1 u old_info"
    and "state_details old_info = None"
  shows "recurse E (Suc n) u s = Err (KeyError ''state_details'') s1"
  using assms by (simp add: recurse_body_def make_new_def build_new_info_def)

theorem missing_state_details_raises_witness:
  "recurse (example_env (example_args\<lparr>old_output := Id ''A''\<rparr>)
              \<lparr>infos := [(Id ''A'', (mk_bundle ''A'' ''run'' ''a'' [])\<lparr>state_details := None\<rparr>)]\<rparr>)
     (Suc 0) (Id ''A'') empty_state
   = Err (KeyError ''state_details'') empty_state"
  using missing_state_details_raises [of empty_state "Id ''A''"
      "example_env (example_args\<lparr>old_output := Id ''A''\<rparr>)
              \<lparr>infos := [(Id ''A'', (mk_bundle ''A'' ''run'' ''a'' [])\<lparr>state_details := None\<rparr>)]\<rparr>"
      "(mk_bundle ''A'' ''run'' ''a'' [])\<lparr>state_details := None\<rparr>" 0 "[]" empty_state]
  by (simp add: example_defs needs_new_def lone_output_def)

section \<open>Preludes on the worksheet\<close>

text \<open>
  C8. Without \<^verbatim>\<open>skip_prelude\<close>, a bundle item whose old uuid is in the substitution map
  with a new uuid in the created set copies every buffered prelude item onto the target
  worksheet, then creates the bundle item of the new uuid, marks it added and clears the
  buffer. Any other item creates nothing: a markup item with non-empty text or a
  directive joins the buffer, everything else clears it.
\<close>

theorem prelude_replication:
  "(item_type it = TYPE_BUNDLE \<and> old_to_new s (item_bundle it) = Some new_bundle_uuid
      \<and> new_bundle_uuid \<in> created_uuids s \<and> \<not> skip_prelude a
    \<longrightarrow> place_item a s (prelude_items, added, log) it =
          ([], insert new_bundle_uuid added,
           log @ map (\<lambda>item2. CreateItem (item2\<lparr>item_worksheet := worksheet_uuid a\<rparr>)
                                (worksheet_uuid a)) prelude_items
               @ [CreateItem (bundle_item (worksheet_uuid a) new_bundle_uuid) (worksheet_uuid a)]))
   \<and> (\<not> (item_type it = TYPE_BUNDLE
           \<and> (\<exists>new_bundle_uuid. old_to_new s (item_bundle it) = Some new_bundle_uuid
                  \<and> new_bundle_uuid \<in> created_uuids s))
    \<longrightarrow> place_item a s (prelude_items, added, log) it =
          (if (item_type it = TYPE_MARKUP \<and> item_value it \<noteq> Some []) \<or> item_type it = TYPE_DIRECTIVE
           then prelude_items @ [it] else [], added, log))"
  by (auto simp add: place_item_def in_prelude_def split: option.splits)

text \<open>
  The worksheet \<open>W\<close> is \<open>[markup intro, bundle A, markup (empty), bundle B]\<close>. Replaying
  the lone output \<open>A\<close> creates \<open>new-a\<close>; \<open>B\<close> is not substituted. The items created on
  the target worksheet \<open>T\<close> are the copy of the intro and the bundle item of \<open>new-a\<close>.
\<close>

theorem prelude_replication_witness:
  "place_item (example_args\<lparr>old_output := Id ''A''\<rparr>)
     (empty_state\<lparr>old_to_new := [Id ''A'' \<mapsto> Id ''new-a''], created_uuids := {Id ''new-a''}\<rparr>)
     ([hd example_items], {}, []) (example_items ! 1)
   = ([], {Id ''new-a''},
      [CreateItem ((hd example_items)\<lparr>item_worksheet := Id ''T''\<rparr>) (Id ''T''),
       CreateItem (bundle_item (Id ''T'') (Id ''new-a'')) (Id ''T'')])
   \<and> place_item (example_args\<lparr>old_output := Id ''A''\<rparr>)
     (empty_state\<lparr>old_to_new := [Id ''A'' \<mapsto> Id ''new-a''], created_uuids := {Id ''new-a''}\<rparr>)
     ([], {Id ''new-a''}, []) (example_items ! 3)
   = ([], {Id ''new-a''}, [])
   \<and> (case mimic_bundles (example_client []) example_specs
              (example_args\<lparr>old_output := Id ''A''\<rparr>) (Suc 0) [] of
         Ok p log \<Rightarrow>
           created_items log =
             [\<lparr>item_type = TYPE_MARKUP, item_value = Some ''intro'', item_bundle = NoId,
               item_worksheet = Id ''T''\<rparr>,
              \<lparr>item_type = TYPE_BUNDLE, item_value = None, item_bundle = Id ''new-a'',
               item_worksheet = Id ''T''\<rparr>]
       | _ \<Rightarrow> False)"
proof -
  let ?a = "example_args\<lparr>old_output := Id ''A''\<rparr>"
  let ?s = "empty_state\<lparr>old_to_new := [Id ''A'' \<mapsto> Id ''new-a''], created_uuids := {Id ''new-a''}\<rparr>"
  have one: "place_item ?a ?s ([hd example_items], {}, []) (example_items ! 1)
     = ([], {Id ''new-a''},
        [CreateItem ((hd example_items)\<lparr>item_worksheet := Id ''T''\<rparr>) (Id ''T''),
         CreateItem (bundle_item (Id ''T'') (Id ''new-a'')) (Id ''T'')])"
    using prelude_replication [of "example_items ! 1" ?s "Id ''new-a''" ?a "[hd example_items]" "{}" "[]"]
    by (simp add: example_defs)
  have two: "place_item ?a ?s ([], {Id ''new-a''}, []) (example_items ! 3) = ([], {Id ''new-a''}, [])"
    using prelude_replication [of "example_items ! 3" ?s NoId ?a "[]" "{Id ''new-a''}" "[]"]
    by (simp add: example_defs)
  have three: "(case mimic_bundles (example_client []) example_specs ?a (Suc 0) [] of
         Ok p log \<Rightarrow>
           created_items log =
             [\<lparr>item_type = TYPE_MARKUP, item_value = Some ''intro'', item_bundle = NoId,
               item_worksheet = Id ''T''\<rparr>,
              \<lparr>item_type = TYPE_BUNDLE, item_value = None, item_bundle = Id ''new-a'',
               item_worksheet = Id ''T''\<rparr>]
       | _ \<Rightarrow> False)"
    by (simp add: engine_defs example_defs)
  from one two three show ?thesis by blast
qed

section \<open>What a traversal preserves\<close>

text \<open>
  A relation between the state before and the state at the end of a call (returned or
  raised) that is reflexive, transitive and kept by the two ways a node is finished,
  holds across \<^verbatim>\<open>recurse\<close>.
\<close>

lemma resolve_deps_final:
  assumes r_refl: "\<And>s. R s s"
    and r_trans: "\<And>s1 s2 s3. R s1 s2 \<Longrightarrow> R s2 s3 \<Longrightarrow> R s1 s3"
    and rec: "\<And>p s s'. final (rec p s) = Some s' \<Longrightarrow> R s s'"
  shows "final (resolve_deps rec deps s) = Some s' \<Longrightarrow> R s s'"
proof (induction deps arbitrary: s)
  case Nil
  then show ?case using r_refl by simp
next
  case (Cons dep deps)
  show ?case
  proof (cases "rec (parent_uuid dep) s")
    case (Ok p s1)
    then have first: "R s s1" using rec [of "parent_uuid dep" s s1] by simp
    from Cons.prems Ok have "final (resolve_deps rec deps s1) = Some s'"
      by (simp split: outcome.splits)
    then have "R s1 s'" by (rule Cons.IH)
    with first show ?thesis by (rule r_trans)
  next
    case (Err e s1)
    with Cons.prems have "s' = s1" by simp
    with Err show ?thesis using rec [of "parent_uuid dep" s s1] by simp
  next
    case OutOfFuel
    with Cons.prems show ?thesis by simp
  qed
qed

lemma recurse_final:
  assumes r_refl: "\<And>s. R s s"
    and r_trans: "\<And>s1 s2 s3. R s1 s2 \<Longrightarrow> R s2 s3 \<Longrightarrow> R s1 s3"
    and new: "\<And>u old_info nd s s'. final (make_new E u old_info nd s) = Some s' \<Longrightarrow> R s s'"
    and keep: "\<And>u s. R s (s\<lparr>old_to_new := (old_to_new s)(u \<mapsto> u)\<rparr>)"
  shows "final (recurse E n u s) = Some s' \<Longrightarrow> R s s'"
proof (induction n arbitrary: u s s')
  case 0
  then show ?case by simp
next
  case (Suc n)
  have deps: "R t t'" if "final (resolve_deps (recurse E n) ds t) = Some t'" for ds t t'
  proof (rule resolve_deps_final [where R = R and rec = "recurse E n" and deps = ds])
    show "R x x" for x by (rule r_refl)
    show "R x z" if "R x y" "R y z" for x y z using that by (rule r_trans)
    show "R x y" if "final (recurse E n p x) = Some y" for p x y using that by (rule Suc.IH)
    show "final (resolve_deps (recurse E n) ds t) = Some t'" by (rule that)
  qed
  show ?case
  proof (cases "old_to_new s u")
    case (Some v)
    with Suc.prems have "s' = s" by (simp add: recurse_body_def)
    then show ?thesis using r_refl by simp
  next
    case None
    show ?thesis
    proof (cases "map_of (infos E) u")
      case no_info: None
      with None Suc.prems have "s' = s" by (simp add: recurse_body_def)
      then show ?thesis using r_refl by simp
    next
      case (Some old_info)
      show ?thesis
      proof (cases "resolve_deps (recurse E n) (dependencies old_info) s")
        case (Ok nd s1)
        then have first: "R s s1" using deps [of "dependencies old_info" s s1] by simp
        show ?thesis
        proof (cases "needs_new E s1 u old_info")
          case True
          with None Some Ok Suc.prems have "final (make_new E u old_info nd s1) = Some s'"
            by (simp add: recurse_body_def)
          then have "R s1 s'" by (rule new)
          with first show ?thesis by (rule r_trans)
        next
          case False
          with None Some Ok Suc.prems
          have "s' = s1\<lparr>old_to_new := (old_to_new s1)(u \<mapsto> u)\<rparr>"
            by (simp add: recurse_body_def)
          then have "R s1 s'" using keep by simp
          with first show ?thesis by (rule r_trans)
        qed
      next
        case (Err e s1)
        with None Some Suc.prems have "s' = s1" by (simp add: recurse_body_def)
        with Err show ?thesis using deps [of "dependencies old_info" s s1] by simp
      next
        case OutOfFuel
        with None Some Suc.prems show ?thesis by (simp add: recurse_body_def)
      qed
    qed
  qed
qed

lemma recurse_all_final:
  assumes r_refl: "\<And>s. R s s"
    and r_trans: "\<And>s1 s2 s3. R s1 s2 \<Longrightarrow> R s2 s3 \<Longrightarrow> R s1 s3"
    and one: "\<And>u s s'. final (recurse E n u s) = Some s' \<Longrightarrow> R s s'"
  shows "final (recurse_all E n us s) = Some s' \<Longrightarrow> R s s'"
proof (induction us arbitrary: s)
  case Nil
  then show ?case using r_refl by simp
next
  case (Cons u us)
  show ?case
  proof (cases "recurse E n u s")
    case (Ok v s1)
    then have first: "R s s1" using one [of u s s1] by simp
    from Cons.prems Ok have "final (recurse_all E n us s1) = Some s'" by simp
    then have "R s1 s'" by (rule Cons.IH)
    with first show ?thesis by (rule r_trans)
  next
    case (Err e s1)
    with Cons.prems have "s' = s1" by simp
    with Err show ?thesis using one [of u s s1] by simp
  next
    case OutOfFuel
    with Cons.prems show ?thesis by simp
  qed
qed

lemma traverse_final:
  assumes r_refl: "\<And>s. R s s"
    and r_trans: "\<And>s1 s2 s3. R s1 s2 \<Longrightarrow> R s2 s3 \<Longrightarrow> R s1 s3"
    and new: "\<And>u old_info nd s s'. final (make_new E u old_info nd s) = Some s' \<Longrightarrow> R s s'"
    and keep: "\<And>u s. R s (s\<lparr>old_to_new := (old_to_new s)(u \<mapsto> u)\<rparr>)"
  shows "final (traverse E n us s) = Some s' \<Longrightarrow> R s s'"
proof -
  have one: "R t t'" if "final (recurse E n v t) = Some t'" for v t t'
  proof (rule recurse_final [where R = R and E = E and n = n and u = v])
    show "R x x" for x by (rule r_refl)
    show "R x z" if "R x y" "R y z" for x y z using that by (rule r_trans)
    show "R x y" if "final (make_new E w old_info nd x) = Some y" for w old_info nd x y
      using that by (rule new)
    show "R x (x\<lparr>old_to_new := (old_to_new x)(w \<mapsto> w)\<rparr>)" for w x by (rule keep)
    show "final (recurse E n v t) = Some t'" by (rule that)
  qed
  assume fin: "final (traverse E n us s) = Some s'"
  show "R s s'"
  proof (cases "truthy_id (old_output (args E))")
    case True
    with fin have "final (recurse E n (old_output (args E)) s) = Some s'"
      by (simp add: traverse_def split: outcome.splits)
    then show ?thesis by (rule one)
  next
    case False
    with fin have "final (recurse_all E n us s) = Some s'" by (simp add: traverse_def)
    then show ?thesis
    proof (rule recurse_all_final [where R = R and E = E and n = n and us = us, rotated 3])
      show "R x x" for x by (rule r_refl)
      show "R x z" if "R x y" "R y z" for x y z using that by (rule r_trans)
      show "R x y" if "final (recurse E n w x) = Some y" for w x y using that by (rule one)
    qed
  qed
qed

text \<open>How a finished node changes the state.\<close>

lemma create_or_reuse_result:
  "\<exists>cs. (\<forall>c \<in> set cs. engine_call E c)
     \<and> ((\<exists>new_info'. create_or_reuse E u old_info new_info s
                          = Ok new_info' (s\<lparr>calls := calls s @ cs\<rparr>))
          \<or> (\<exists>e. create_or_reuse E u old_info new_info s = Err e (s\<lparr>calls := calls s @ cs\<rparr>)))"
proof (cases "memoize (args E)")
  case True
  let ?c = "SearchBundles (command old_info) (dependency_shape (dependencies new_info))"
  let ?found = "search_bundles (client E) (calls s) (command old_info)
                  (dependency_shape (dependencies new_info))"
  let ?cs = "if dry_run (args E) \<or> ?found \<noteq> []
                  \<or> (bundle_type new_info \<noteq> ''make'' \<and> bundle_type new_info \<noteq> ''run'')
             then [?c] else [?c, CreateBundle new_info (bundle_params E old_info)]"
  from True show ?thesis
    by (intro exI [of _ ?cs])
       (simp add: create_or_reuse_def fetch_memoized_def engine_call_def)
next
  case False
  let ?cs = "if dry_run (args E)
                  \<or> (bundle_type new_info \<noteq> ''make'' \<and> bundle_type new_info \<noteq> ''run'')
             then [] else [CreateBundle new_info (bundle_params E old_info)]"
  from False show ?thesis
    by (intro exI [of _ ?cs])
       (simp add: create_or_reuse_def fetch_memoized_def engine_call_def)
qed

lemma make_new_final:
  assumes "final (make_new E u old_info nd s) = Some s'"
  shows "\<exists>cs. (\<forall>c \<in> set cs. engine_call E c)
           \<and> (s' = s\<lparr>calls := calls s @ cs\<rparr>
                \<or> (\<exists>new_info.
                      s' = s\<lparr>calls := calls s @ cs,
                             plan := plan s @ [(old_info, new_info)],
                             downstream := insert u (downstream s),
                             created_uuids := insert (uuid new_info) (created_uuids s),
                             old_to_new := (old_to_new s)(u \<mapsto> uuid new_info)\<rparr>))"
proof (cases "build_new_info E u old_info nd")
  case (Inl e)
  with assms have "s' = s\<lparr>calls := calls s @ []\<rparr>" by (simp add: make_new_def)
  then show ?thesis by (intro exI [of _ "[]"]) simp
next
  case (Inr new_info)
  from create_or_reuse_result [of E u old_info new_info s]
  obtain cs where cs: "\<forall>c \<in> set cs. engine_call E c"
    and res: "(\<exists>new_info'. create_or_reuse E u old_info new_info s
                          = Ok new_info' (s\<lparr>calls := calls s @ cs\<rparr>))
          \<or> (\<exists>e. create_or_reuse E u old_info new_info s = Err e (s\<lparr>calls := calls s @ cs\<rparr>))"
    by blast
  from res show ?thesis
  proof
    assume "\<exists>new_info'. create_or_reuse E u old_info new_info s
                          = Ok new_info' (s\<lparr>calls := calls s @ cs\<rparr>)"
    then obtain new_info' where
      "create_or_reuse E u old_info new_info s = Ok new_info' (s\<lparr>calls := calls s @ cs\<rparr>)"
      by blast
    with assms Inr have
      "s' = s\<lparr>calls := calls s @ cs,
             plan := plan s @ [(old_info, new_info')],
             downstream := insert u (downstream s),
             created_uuids := insert (uuid new_info') (created_uuids s),
             old_to_new := (old_to_new s)(u \<mapsto> uuid new_info')\<rparr>"
      by (simp add: make_new_def record_new_def Let_def)
    with cs show ?thesis by blast
  next
    assume "\<exists>e. create_or_reuse E u old_info new_info s = Err e (s\<lparr>calls := calls s @ cs\<rparr>)"
    then obtain e where
      "create_or_reuse E u old_info new_info s = Err e (s\<lparr>calls := calls s @ cs\<rparr>)"
      by blast
    with assms Inr have "s' = s\<lparr>calls := calls s @ cs\<rparr>" by (simp add: make_new_def)
    with cs show ?thesis by blast
  qed
qed

lemma grows_refl: "grows E s s"
  by (simp add: grows_def)

lemma grows_trans:
  assumes "grows E s1 s2" and "grows E s2 s3"
  shows "grows E s1 s3"
proof -
  from assms(1) obtain cs es where
    one: "calls s2 = calls s1 @ cs" "\<forall>c \<in> set cs. engine_call E c"
      "downstream s1 \<subseteq> downstream s2" "plan s2 = plan s1 @ es"
      "created_uuids s1 = set (new_uuids (plan s1))
         \<longrightarrow> created_uuids s2 = set (new_uuids (plan s2))"
    unfolding grows_def by blast
  from assms(2) obtain cs' es' where
    two: "calls s3 = calls s2 @ cs'" "\<forall>c \<in> set cs'. engine_call E c"
      "downstream s2 \<subseteq> downstream s3" "plan s3 = plan s2 @ es'"
      "created_uuids s2 = set (new_uuids (plan s2))
         \<longrightarrow> created_uuids s3 = set (new_uuids (plan s3))"
    unfolding grows_def by blast
  have "calls s3 = calls s1 @ (cs @ cs')" using one(1) two(1) by simp
  moreover have "\<forall>c \<in> set (cs @ cs'). engine_call E c" using one(2) two(2) by auto
  moreover have "downstream s1 \<subseteq> downstream s3" using one(3) two(3) by blast
  moreover have "plan s3 = plan s1 @ (es @ es')" using one(4) two(4) by simp
  moreover have "created_uuids s1 = set (new_uuids (plan s1))
         \<longrightarrow> created_uuids s3 = set (new_uuids (plan s3))" using one(5) two(5) by blast
  ultimately show ?thesis unfolding grows_def by blast
qed

lemma grows_keep: "grows E s (s\<lparr>old_to_new := (old_to_new s)(u \<mapsto> u)\<rparr>)"
  by (simp add: grows_def)

lemma grows_new:
  assumes "final (make_new E u old_info nd s) = Some s'"
  shows "grows E s s'"
proof -
  from make_new_final [OF assms] obtain cs where cs: "\<forall>c \<in> set cs. engine_call E c"
    and s': "s' = s\<lparr>calls := calls s @ cs\<rparr>
                \<or> (\<exists>new_info.
                      s' = s\<lparr>calls := calls s @ cs,
                             plan := plan s @ [(old_info, new_info)],
                             downstream := insert u (downstream s),
                             created_uuids := insert (uuid new_info) (created_uuids s),
                             old_to_new := (old_to_new s)(u \<mapsto> uuid new_info)\<rparr>)"
    by blast
  from s' show ?thesis
  proof
    assume "s' = s\<lparr>calls := calls s @ cs\<rparr>"
    with cs show ?thesis by (simp add: grows_def)
  next
    assume "\<exists>new_info.
                      s' = s\<lparr>calls := calls s @ cs,
                             plan := plan s @ [(old_info, new_info)],
                             downstream := insert u (downstream s),
                             created_uuids := insert (uuid new_info) (created_uuids s),
                             old_to_new := (old_to_new s)(u \<mapsto> uuid new_info)\<rparr>"
    then obtain new_info where
      "s' = s\<lparr>calls := calls s @ cs,
                             plan := plan s @ [(old_info, new_info)],
                             downstream := insert u (downstream s),
                             created_uuids := insert (uuid new_info) (created_uuids s),
                             old_to_new := (old_to_new s)(u \<mapsto> uuid new_info)\<rparr>"
      by blast
    with cs show ?thesis by (auto simp add: grows_def new_uuids_def)
  qed
qed

lemma recurse_grows: "final (recurse E n u s) = Some s' \<Longrightarrow> grows E s s'"
proof (rule recurse_final [where R = "grows E" and E = E and n = n and u = u])
  show "grows E x x" for x by (rule grows_refl)
  show "grows E x z" if "grows E x y" "grows E y z" for x y z using that by (rule grows_trans)
  show "grows E x y" if "final (make_new E w old_info nd x) = Some y" for w old_info nd x y
    using that by (rule grows_new)
  show "grows E x (x\<lparr>old_to_new := (old_to_new x)(w \<mapsto> w)\<rparr>)" for w x by (rule grows_keep)
qed

lemma traverse_grows: "final (traverse E n us s) = Some s' \<Longrightarrow> grows E s s'"
proof (rule traverse_final [where R = "grows E" and E = E and n = n and us = us])
  show "grows E x x" for x by (rule grows_refl)
  show "grows E x z" if "grows E x y" "grows E y z" for x y z using that by (rule grows_trans)
  show "grows E x y" if "final (make_new E w old_info nd x) = Some y" for w old_info nd x y
    using that by (rule grows_new)
  show "grows E x (x\<lparr>old_to_new := (old_to_new x)(w \<mapsto> w)\<rparr>)" for w x by (rule grows_keep)
qed

text \<open>The state the traversal starts from.\<close>

lemma seed_fold:
  "created_uuids (foldl (\<lambda>s (old, new). s\<lparr>old_to_new := (old_to_new s)(old \<mapsto> new),
                              downstream := insert old (downstream s)\<rparr>) s0 ps) = created_uuids s0
   \<and> plan (foldl (\<lambda>s (old, new). s\<lparr>old_to_new := (old_to_new s)(old \<mapsto> new),
                              downstream := insert old (downstream s)\<rparr>) s0 ps) = plan s0
   \<and> calls (foldl (\<lambda>s (old, new). s\<lparr>old_to_new := (old_to_new s)(old \<mapsto> new),
                              downstream := insert old (downstream s)\<rparr>) s0 ps) = calls s0
   \<and> downstream (foldl (\<lambda>s (old, new). s\<lparr>old_to_new := (old_to_new s)(old \<mapsto> new),
                              downstream := insert old (downstream s)\<rparr>) s0 ps)
       = downstream s0 \<union> fst ` set ps
   \<and> dom (old_to_new (foldl (\<lambda>s (old, new). s\<lparr>old_to_new := (old_to_new s)(old \<mapsto> new),
                              downstream := insert old (downstream s)\<rparr>) s0 ps))
       = dom (old_to_new s0) \<union> fst ` set ps"
  by (induction ps arbitrary: s0) (auto split: prod.splits)

lemma seed_simps:
  "created_uuids (seed a log) = {}" "plan (seed a log) = []" "calls (seed a log) = log"
  "downstream (seed a log) = fst ` set (zip (old_inputs a) (new_inputs a))"
  "dom (old_to_new (seed a log)) = fst ` set (zip (old_inputs a) (new_inputs a))"
  by (simp_all add: seed_def seed_fold)

section \<open>The created set\<close>

lemma placed_bundles_append:
  "placed_bundles (xs @ ys) = placed_bundles xs @ placed_bundles ys"
  by (simp add: placed_bundles_def created_items_def)

lemma placed_bundles_preludes:
  "\<forall>it \<in> set items. in_prelude it \<Longrightarrow>
   placed_bundles (map (\<lambda>item2. CreateItem (item2\<lparr>item_worksheet := w\<rparr>) w') items) = []"
  by (induction items) (auto simp add: placed_bundles_def created_items_def in_prelude_def)

lemma placed_bundles_item:
  "placed_bundles [CreateItem (bundle_item w v) w'] = [v]"
  by (simp add: placed_bundles_def created_items_def bundle_item_def)

lemma place_item_placed:
  assumes "place_item a s (prelude_items, added, log) it = (prelude_items', added', log')"
    and "\<forall>i \<in> set prelude_items. in_prelude i"
  shows "\<exists>cs. log' = log @ cs \<and> set (placed_bundles cs) \<subseteq> created_uuids s
           \<and> (\<forall>i \<in> set prelude_items'. in_prelude i)"
proof (cases "item_type it = TYPE_BUNDLE
    \<and> (\<exists>v. old_to_new s (item_bundle it) = Some v \<and> v \<in> created_uuids s)")
  case True
  then obtain v where v: "old_to_new s (item_bundle it) = Some v" "v \<in> created_uuids s"
    by blast
  let ?cs = "(if \<not> skip_prelude a
              then map (\<lambda>item2. CreateItem (item2\<lparr>item_worksheet := worksheet_uuid a\<rparr>)
                                   (worksheet_uuid a)) prelude_items
              else [])
             @ [CreateItem (bundle_item (worksheet_uuid a) v) (worksheet_uuid a)]"
  from assms(1) True v have "log' = log @ ?cs" and "prelude_items' = []"
    by (auto simp add: place_item_def in_prelude_def)
  moreover have "set (placed_bundles ?cs) \<subseteq> created_uuids s"
    using v(2) assms(2)
    by (simp add: placed_bundles_append placed_bundles_preludes placed_bundles_item
        del: append.simps)
       (simp add: placed_bundles_def created_items_def)
  ultimately show ?thesis by (intro exI [of _ ?cs]) simp
next
  case False
  with assms have "log' = log @ []" and "\<forall>i \<in> set prelude_items'. in_prelude i"
    by (auto simp add: place_item_def split: option.splits if_splits)
  then show ?thesis by (intro exI [of _ "[]"]) (simp add: placed_bundles_def created_items_def)
qed

lemma scan_placed:
  assumes "foldl (place_item a s) (prelude_items, added, log) items = (prelude_items', added', log')"
    and "\<forall>i \<in> set prelude_items. in_prelude i"
  shows "\<exists>cs. log' = log @ cs \<and> set (placed_bundles cs) \<subseteq> created_uuids s"
  using assms
proof (induction items arbitrary: prelude_items added log)
  case Nil
  then show ?case by (intro exI [of _ "[]"]) (simp add: placed_bundles_def created_items_def)
next
  case (Cons it items)
  obtain p1 a1 l1 where step: "place_item a s (prelude_items, added, log) it = (p1, a1, l1)"
    by (cases "place_item a s (prelude_items, added, log) it") blast
  from place_item_placed [OF step Cons.prems(2)] obtain cs where
    cs: "l1 = log @ cs" "set (placed_bundles cs) \<subseteq> created_uuids s" "\<forall>i \<in> set p1. in_prelude i"
    by blast
  from Cons.prems(1) step have "foldl (place_item a s) (p1, a1, l1) items = (prelude_items', added', log')"
    by simp
  from Cons.IH [OF this cs(3)] obtain cs' where
    cs': "log' = l1 @ cs'" "set (placed_bundles cs') \<subseteq> created_uuids s"
    by blast
  from cs cs' show ?case
    by (intro exI [of _ "cs @ cs'"]) (simp add: placed_bundles_append)
qed

lemma scan_host_placed:
  assumes "scan_host E s hosts log = (added, log')"
  shows "\<exists>cs. log' = log @ cs \<and> set (placed_bundles cs) \<subseteq> created_uuids s"
proof (cases hosts)
  case Nil
  with assms show ?thesis
    by (intro exI [of _ "[]"]) (simp add: scan_host_def placed_bundles_def created_items_def)
next
  case (Cons first rest)
  let ?h = "if worksheet_uuid (args E) \<in> set hosts then worksheet_uuid (args E) else first"
  obtain p1 a1 l1 where
    f: "foldl (place_item (args E) s) ([], {}, log @ [FetchWorksheet ?h])
          (fetch_worksheet (client E) log ?h) = (p1, a1, l1)"
    by (cases "foldl (place_item (args E) s) ([], {}, log @ [FetchWorksheet ?h])
          (fetch_worksheet (client E) log ?h)") blast
  from scan_placed [OF f] obtain cs where
    cs: "l1 = (log @ [FetchWorksheet ?h]) @ cs" "set (placed_bundles cs) \<subseteq> created_uuids s"
    by auto
  from assms Cons f have "log' = l1" by (simp add: scan_host_def Let_def)
  with cs show ?thesis
    by (intro exI [of _ "FetchWorksheet ?h # cs"])
       (simp add: placed_bundles_def created_items_def)
qed

lemma add_rest_placed:
  "add_rest ws added p log = Ok x log' \<Longrightarrow>
   \<exists>cs. log' = log @ cs \<and> set (placed_bundles cs) \<subseteq> set (new_uuids p)"
proof (induction p arbitrary: log)
  case Nil
  then show ?case by (intro exI [of _ "[]"]) (simp add: placed_bundles_def created_items_def)
next
  case (Cons entry rest)
  show ?case
  proof (cases "uuid (snd entry) \<notin> added")
    case True
    let ?c = "CreateItem (bundle_item ws (uuid (snd entry))) ws"
    from Cons.prems True have "add_rest ws added rest (log @ [?c]) = Ok x log'"
      by (simp split: ident.splits)
    from Cons.IH [OF this] obtain cs where
      cs: "log' = (log @ [?c]) @ cs" "set (placed_bundles cs) \<subseteq> set (new_uuids rest)"
      by blast
    have "placed_bundles (?c # cs) = uuid (snd entry) # placed_bundles cs"
      using placed_bundles_append [of "[?c]" cs] by (simp add: placed_bundles_item)
    with cs show ?thesis
      by (intro exI [of _ "?c # cs"]) (auto simp add: new_uuids_def)
  next
    case False
    with Cons.prems have "add_rest ws added rest log = Ok x log'" by simp
    from Cons.IH [OF this] show ?thesis by (auto simp add: new_uuids_def)
  qed
qed

lemma place_placed:
  assumes "place E s = Ok x log'"
    and "created_uuids s = set (new_uuids (plan s))"
  shows "\<exists>cs. log' = calls s @ cs \<and> set (placed_bundles cs) \<subseteq> created_uuids s"
proof -
  from assms(1) obtain anchor where anchor: "anchor_uuid (args E) = Inr (Id anchor)"
    by (auto simp add: place_def split: sum.splits ident.splits)
  let ?log = "calls s @ [FetchWorksheets (''bundle='' @ anchor)]"
  obtain added l1 where
    sc: "scan_host E s (fetch_worksheets (client E) (calls s) (''bundle='' @ anchor)) ?log
           = (added, l1)"
    by (cases "scan_host E s (fetch_worksheets (client E) (calls s) (''bundle='' @ anchor)) ?log")
       blast
  from scan_host_placed [OF sc] obtain cs where
    cs: "l1 = ?log @ cs" "set (placed_bundles cs) \<subseteq> created_uuids s"
    by blast
  from assms(1) anchor sc have "add_rest (worksheet_uuid (args E)) added (plan s) l1 = Ok x log'"
    by (simp add: place_def)
  from add_rest_placed [OF this] obtain cs' where
    cs': "log' = l1 @ cs'" "set (placed_bundles cs') \<subseteq> set (new_uuids (plan s))"
    by blast
  from cs cs' assms(2) show ?thesis
    by (intro exI [of _ "FetchWorksheets (''bundle='' @ anchor) # cs @ cs'"])
       (simp add: placed_bundles_append, simp add: placed_bundles_def created_items_def)
qed

text \<open>
  C1 (as the code has it). \<^verbatim>\<open>created_uuids.add(new_bundle_uuid)\<close> runs for every node
  that needs a new bundle, whatever branch produced the final description: the uuid added
  is the one of the created bundle, of the memo-reused bundle, or \<^verbatim>\<open>None\<close> in a dry
  run. After the traversal the created set is the set of the new uuids of the plan, and
  every bundle item the placement creates is for a uuid of the created set.
\<close>

theorem created_set_is_plan_targets:
  assumes "replay C specs a n log = Ok x s"
  shows "created_uuids s = set (new_uuids (plan s))
       \<and> (\<forall>y log'. place (replay_env C specs a log) s = Ok y log'
             \<longrightarrow> set (placed_bundles (drop (length (calls s)) log')) \<subseteq> created_uuids s)
       \<and> (\<forall>E u old_info nd s0 v s1. make_new E u old_info nd s0 = Ok v s1
             \<longrightarrow> created_uuids s1 = insert v (created_uuids s0)
                 \<and> (\<exists>new_info. plan s1 = plan s0 @ [(old_info, new_info)] \<and> uuid new_info = v))"
proof -
  let ?E = "replay_env C specs a log"
  let ?s0 = "seed a (snd (snd (build_graph C a log)))"
  from assms have "final (traverse ?E n (fst (build_graph C a log)) ?s0) = Some s"
    by (simp add: replay_def)
  then have "grows ?E ?s0 s" by (rule traverse_grows)
  then have inv: "created_uuids s = set (new_uuids (plan s))"
    by (simp add: grows_def seed_simps new_uuids_def)
  have placed: "set (placed_bundles (drop (length (calls s)) log')) \<subseteq> created_uuids s"
    if "place ?E s = Ok y log'" for y log'
    using place_placed [OF that inv] by auto
  have node: "created_uuids s1 = insert v (created_uuids s0)
                 \<and> (\<exists>new_info. plan s1 = plan s0 @ [(old_info, new_info)] \<and> uuid new_info = v)"
    if "make_new E u old_info nd s0 = Ok v s1" for E u old_info nd s0 v s1
    using that
    by (auto simp add: make_new_def record_new_def create_or_reuse_def fetch_memoized_def Let_def
        split: sum.splits outcome.splits if_splits)
  from inv placed node show ?thesis by blast
qed

theorem created_set_is_plan_targets_witness:
  "\<exists>s. replay (example_client []) example_specs (example_args\<lparr>old_output := Id ''A''\<rparr>) (Suc 0) []
          = Ok () s
      \<and> created_uuids s = set (new_uuids (plan s))
      \<and> created_uuids s = {Id ''new-a''}"
proof -
  have "\<exists>s. replay (example_client []) example_specs (example_args\<lparr>old_output := Id ''A''\<rparr>)
               (Suc 0) [] = Ok () s \<and> created_uuids s = {Id ''new-a''}"
    by (simp add: engine_defs example_defs)
  then obtain s where
    r: "replay (example_client []) example_specs (example_args\<lparr>old_output := Id ''A''\<rparr>)
          (Suc 0) [] = Ok () s"
    and c: "created_uuids s = {Id ''new-a''}"
    by blast
  from created_set_is_plan_targets [OF r] c r show ?thesis by blast
qed

text \<open>
  The claim as stated fails. With \<^verbatim>\<open>memoize\<close> and a match \<open>M\<close> of the search, no bundle
  is created, yet \<open>M\<close> is in the created set and gets its bundle item on the worksheet;
  in a dry run the created set holds \<^verbatim>\<open>None\<close>.
\<close>

theorem created_set_counterexample:
  "(case replay (example_client [mk_bundle ''M'' ''run'' ''m'' []]) example_specs
           (example_args\<lparr>old_output := Id ''A'', memoize := True\<rparr>) (Suc 0) [] of
      Ok x s \<Rightarrow> created_uuids s = {Id ''M''} \<and> created_bundles (calls s) = []
    | _ \<Rightarrow> False)
   \<and> (case mimic_bundles (example_client [mk_bundle ''M'' ''run'' ''m'' []]) example_specs
           (example_args\<lparr>old_output := Id ''A'', memoize := True\<rparr>) (Suc 0) [] of
      Ok p log \<Rightarrow> placed_bundles log = [Id ''M''] \<and> created_bundles log = []
    | _ \<Rightarrow> False)
   \<and> (case replay (example_client []) example_specs
           (example_args\<lparr>old_output := Id ''A'', dry_run := True\<rparr>) (Suc 0) [] of
      Ok x s \<Rightarrow> created_uuids s = {NoId} \<and> created_bundles (calls s) = []
    | _ \<Rightarrow> False)"
  by (simp add: engine_defs example_defs)

section \<open>The graph phase makes no create call\<close>

lemma visit_log:
  assumes "visit C (i0, v0, n0, log) u = (i1, v1, n1, log1)"
  shows "\<exists>cs. log1 = log @ cs \<and> (\<forall>c \<in> set cs. \<not> is_create c)"
proof (cases "u \<in> v0 \<or> map_of i0 u \<noteq> None")
  case True
  with assms have "log1 = log @ []"
    by (auto simp add: visit_def split: option.splits if_splits)
  then show ?thesis by (intro exI [of _ "[]"]) simp
next
  case False
  with assms have "log1 = log @ [FetchBundle u]"
    by (auto simp add: visit_def split: option.splits if_splits)
  then show ?thesis by (intro exI [of _ "[FetchBundle u]"]) simp
qed

lemma visit_fold_log:
  "foldl (visit C) (i0, v0, n0, log) us = (i1, v1, n1, log1) \<Longrightarrow>
   \<exists>cs. log1 = log @ cs \<and> (\<forall>c \<in> set cs. \<not> is_create c)"
proof (induction us arbitrary: i0 v0 n0 log)
  case Nil
  then show ?case by (intro exI [of _ "[]"]) simp
next
  case (Cons u us)
  obtain i v m l where step: "visit C (i0, v0, n0, log) u = (i, v, m, l)"
    by (cases "visit C (i0, v0, n0, log) u") blast
  from visit_log [OF step] obtain cs where cs: "l = log @ cs" "\<forall>c \<in> set cs. \<not> is_create c"
    by blast
  from Cons.prems step have "foldl (visit C) (i, v, m, l) us = (i1, v1, n1, log1)" by simp
  from Cons.IH [OF this] obtain cs' where
    cs': "log1 = l @ cs'" "\<forall>c \<in> set cs'. \<not> is_create c"
    by blast
  from cs cs' show ?case by (intro exI [of _ "cs @ cs'"]) auto
qed

lemma ancestor_rounds_log:
  "ancestor_rounds C k result us i0 v0 log = (result', i1, log1) \<Longrightarrow>
   \<exists>cs. log1 = log @ cs \<and> (\<forall>c \<in> set cs. \<not> is_create c)"
proof (induction k arbitrary: result us i0 v0 log)
  case 0
  then show ?case by (intro exI [of _ "[]"]) simp
next
  case (Suc k)
  obtain i v m l where round: "foldl (visit C) (i0, v0, [], log) us = (i, v, m, l)"
    by (cases "foldl (visit C) (i0, v0, [], log) us") blast
  from visit_fold_log [OF round] obtain cs where
    cs: "l = log @ cs" "\<forall>c \<in> set cs. \<not> is_create c"
    by blast
  from Suc.prems round have "ancestor_rounds C k (m @ result) m i v l = (result', i1, log1)"
    by simp
  from Suc.IH [OF this] obtain cs' where
    cs': "log1 = l @ cs'" "\<forall>c \<in> set cs'. \<not> is_create c"
    by blast
  from cs cs' show ?case by (intro exI [of _ "cs @ cs'"]) auto
qed

lemma build_graph_log:
  "\<exists>cs. snd (snd (build_graph C a log)) = log @ cs \<and> (\<forall>c \<in> set cs. \<not> is_create c)"
proof -
  let ?bs = "by_uuid (fetch_bundles C log (initial_params a))"
  let ?l = "log @ [FetchBundles (initial_params a)]"
  obtain r i l where g: "ancestor_rounds C (nat (depth a)) (map fst ?bs) (map fst ?bs) ?bs {} ?l = (r, i, l)"
    by (cases "ancestor_rounds C (nat (depth a)) (map fst ?bs) (map fst ?bs) ?bs {} ?l") blast
  from ancestor_rounds_log [OF g] obtain cs where
    cs: "l = ?l @ cs" "\<forall>c \<in> set cs. \<not> is_create c"
    by blast
  from g have "snd (snd (build_graph C a log)) = l"
    by (simp add: build_graph_def get_self_and_ancestors_def)
  with cs show ?thesis
    by (intro exI [of _ "FetchBundles (initial_params a) # cs"]) simp
qed

section \<open>Errors of the traversal\<close>

lemma resolve_deps_error:
  assumes rec: "\<And>p s e s'. rec p s = Err e s' \<Longrightarrow> Q e"
  shows "resolve_deps rec deps s = Err e s' \<Longrightarrow> Q e"
proof (induction deps arbitrary: s)
  case Nil
  then show ?case by simp
next
  case (Cons dep deps)
  show ?case
  proof (cases "rec (parent_uuid dep) s")
    case (Ok p s1)
    with Cons.prems have "resolve_deps rec deps s1 = Err e s'"
      by (simp split: outcome.splits)
    then show ?thesis by (rule Cons.IH)
  next
    case (Err e1 s1)
    with Cons.prems have "e1 = e" by simp
    with Err show ?thesis using rec by blast
  next
    case OutOfFuel
    with Cons.prems show ?thesis by simp
  qed
qed

lemma recurse_error:
  assumes new: "\<And>u old_info nd s e s'. map_of (infos E) u = Some old_info
      \<Longrightarrow> make_new E u old_info nd s = Err e s' \<Longrightarrow> Q e"
  shows "recurse E n u s = Err e s' \<Longrightarrow> Q e"
proof (induction n arbitrary: u s s' e)
  case 0
  then show ?case by simp
next
  case (Suc n)
  from Suc.prems obtain old_info where cached: "map_of (infos E) u = Some old_info"
    and none: "old_to_new s u = None"
    by (auto simp add: recurse_body_def split: option.splits)
  show ?case
  proof (cases "resolve_deps (recurse E n) (dependencies old_info) s")
    case (Ok nd s1)
    with Suc.prems cached none have "make_new E u old_info nd s1 = Err e s'"
      by (simp add: recurse_body_def split: if_splits)
    with cached show ?thesis by (rule new)
  next
    case (Err e1 s1)
    with Suc.prems cached none have "e1 = e" by (simp add: recurse_body_def)
    with Err have "resolve_deps (recurse E n) (dependencies old_info) s = Err e s1" by simp
    then show ?thesis
      by (rule resolve_deps_error [where rec = "recurse E n" and Q = Q, rotated]) (rule Suc.IH)
  next
    case OutOfFuel
    with Suc.prems cached none show ?thesis by (simp add: recurse_body_def)
  qed
qed

lemma recurse_all_error:
  assumes one: "\<And>u s e s'. recurse E n u s = Err e s' \<Longrightarrow> Q e"
  shows "recurse_all E n us s = Err e s' \<Longrightarrow> Q e"
proof (induction us arbitrary: s)
  case Nil
  then show ?case by simp
next
  case (Cons u us)
  show ?case
  proof (cases "recurse E n u s")
    case (Ok v s1)
    with Cons.prems have "recurse_all E n us s1 = Err e s'" by simp
    then show ?thesis by (rule Cons.IH)
  next
    case (Err e1 s1)
    with Cons.prems have "e1 = e" by simp
    with Err show ?thesis using one by blast
  next
    case OutOfFuel
    with Cons.prems show ?thesis by simp
  qed
qed

lemma traverse_error:
  assumes new: "\<And>u old_info nd s e s'. map_of (infos E) u = Some old_info
      \<Longrightarrow> make_new E u old_info nd s = Err e s' \<Longrightarrow> Q e"
    and err: "traverse E n us s = Err e s'"
  shows "Q e"
proof -
  have one: "Q e1" if "recurse E n v t = Err e1 t'" for v t e1 t'
    using that by (rule recurse_error [where E = E and Q = Q, rotated]) (rule new)
  show ?thesis
  proof (cases "truthy_id (old_output (args E))")
    case True
    with err have "recurse E n (old_output (args E)) s = Err e s'"
      by (simp add: traverse_def split: outcome.splits)
    then show ?thesis by (rule one)
  next
    case False
    with err have "recurse_all E n us s = Err e s'" by (simp add: traverse_def)
    then show ?thesis
      by (rule recurse_all_error [where E = E and n = n and Q = Q, rotated]) (rule one)
  qed
qed

lemma build_new_info_no_usage_error:
  "build_new_info E u old_info nd \<noteq> Inl (UsageError m)"
  by (auto simp add: build_new_info_def rename_def split: option.splits sum.splits jval.splits if_splits)

lemma make_new_usage_error:
  "make_new E u old_info nd s = Err (UsageError m) s' \<longleftrightarrow>
     ((\<exists>new_info. build_new_info E u old_info nd = Inr new_info)
      \<and> \<not> dry_run (args E)
      \<and> \<not> (memoize (args E) \<and> fst (fetch_memoized E old_info nd s) \<noteq> [])
      \<and> bundle_type old_info \<noteq> ''make'' \<and> bundle_type old_info \<noteq> ''run''
      \<and> m = not_make_or_run u
      \<and> s' = snd (fetch_memoized E old_info nd s))"
proof (cases "build_new_info E u old_info nd")
  case (Inl e)
  then show ?thesis
    using build_new_info_no_usage_error [of E u old_info nd m]
    by (auto simp add: make_new_def)
next
  case (Inr new_info)
  from build_new_info_type [OF Inr] have same: "bundle_type new_info = bundle_type old_info"
    "dependencies new_info = nd" by simp_all
  obtain found t where fm: "fetch_memoized E old_info nd s = (found, t)"
    by (cases "fetch_memoized E old_info nd s") blast
  with Inr same show ?thesis
    by (auto simp add: make_new_def create_or_reuse_def record_new_def Let_def)
qed

text \<open>An error of a dependency, or of an id of the driver loop, ends the loop there.\<close>

lemma resolve_deps_aborts:
  "resolve_deps rec resolved s = Ok nd s1 \<Longrightarrow> rec (parent_uuid dep) s1 = Err e s2
     \<Longrightarrow> resolve_deps rec (resolved @ dep # pending) s = Err e s2"
proof (induction resolved arbitrary: s nd)
  case Nil
  then show ?case by simp
next
  case (Cons d resolved)
  from Cons.prems(1) obtain p t nds where
    first: "rec (parent_uuid d) s = Ok p t" and rest: "resolve_deps rec resolved t = Ok nds s1"
    by (auto split: outcome.splits)
  from Cons.IH [OF rest Cons.prems(2)] first show ?case by simp
qed

lemma recurse_all_aborts:
  "recurse_all E n visited s = Ok x s1 \<Longrightarrow> recurse E n v s1 = Err e s2
     \<Longrightarrow> recurse_all E n (visited @ v # unvisited) s = Err e s2"
proof (induction visited arbitrary: s)
  case Nil
  then show ?case by simp
next
  case (Cons w visited)
  from Cons.prems(1) obtain p t where
    first: "recurse E n w s = Ok p t" and rest: "recurse_all E n visited t = Ok x s1"
    by (auto split: outcome.splits)
  from Cons.IH [OF rest Cons.prems(2)] first show ?case by simp
qed

lemma usage_error_origin:
  "(replay C specs a n log = Err (UsageError m) t \<longrightarrow>
        \<not> dry_run a
        \<and> (\<exists>v old. map_of (infos (replay_env C specs a log)) v = Some old
              \<and> bundle_type old \<noteq> ''make'' \<and> bundle_type old \<noteq> ''run''
              \<and> m = not_make_or_run v))
   \<and> (replay C specs a n log = Err e t \<longrightarrow>
        mimic_bundles C specs a n log = Err e (calls t)
        \<and> (\<exists>cs. calls t = log @ cs
              \<and> created_bundles (calls t) = created_bundles log @ created_bundles cs))"
proof (intro conjI impI)
  let ?E = "replay_env C specs a log"
  let ?Q = "\<lambda>e. \<forall>m. e = UsageError m \<longrightarrow>
        \<not> dry_run a
        \<and> (\<exists>v old. map_of (infos ?E) v = Some old
              \<and> bundle_type old \<noteq> ''make'' \<and> bundle_type old \<noteq> ''run''
              \<and> m = not_make_or_run v)"
  assume "replay C specs a n log = Err (UsageError m) t"
  then have err: "traverse ?E n (fst (build_graph C a log))
      (seed a (snd (snd (build_graph C a log)))) = Err (UsageError m) t"
    by (simp add: replay_def)
  have "?Q (UsageError m)"
  proof (rule traverse_error [where E = ?E and Q = ?Q, OF _ err])
    fix v old nd s1 e1 s2
    assume cached: "map_of (infos ?E) v = Some old" and mk: "make_new ?E v old nd s1 = Err e1 s2"
    show "?Q e1"
    proof (intro allI impI)
      fix m1
      assume "e1 = UsageError m1"
      with mk have "make_new ?E v old nd s1 = Err (UsageError m1) s2" by simp
      then have "\<not> dry_run (args ?E) \<and> bundle_type old \<noteq> ''make'' \<and> bundle_type old \<noteq> ''run''
          \<and> m1 = not_make_or_run v"
        by (simp add: make_new_usage_error)
      with cached show "\<not> dry_run a
        \<and> (\<exists>v old. map_of (infos ?E) v = Some old
              \<and> bundle_type old \<noteq> ''make'' \<and> bundle_type old \<noteq> ''run''
              \<and> m1 = not_make_or_run v)"
        by (auto simp add: replay_env_def)
    qed
  qed
  then show "\<not> dry_run a"
    and "\<exists>v old. map_of (infos ?E) v = Some old
              \<and> bundle_type old \<noteq> ''make'' \<and> bundle_type old \<noteq> ''run''
              \<and> m = not_make_or_run v"
    by blast+
next
  assume r: "replay C specs a n log = Err e t"
  then show "mimic_bundles C specs a n log = Err e (calls t)"
    by (simp add: mimic_bundles_def)
  let ?E = "replay_env C specs a log"
  from r have "final (traverse ?E n (fst (build_graph C a log))
      (seed a (snd (snd (build_graph C a log))))) = Some t"
    by (simp add: replay_def)
  then have "grows ?E (seed a (snd (snd (build_graph C a log)))) t" by (rule traverse_grows)
  then obtain cs where cs: "calls t = snd (snd (build_graph C a log)) @ cs"
    by (auto simp add: grows_def seed_simps)
  from build_graph_log [of C a log] obtain cs0 where
    "snd (snd (build_graph C a log)) = log @ cs0" by blast
  with cs have "calls t = log @ (cs0 @ cs)" by simp
  then show "\<exists>cs. calls t = log @ cs
              \<and> created_bundles (calls t) = created_bundles log @ created_bundles cs"
    by (intro exI [of _ "cs0 @ cs"]) (simp add: created_bundles_def)
qed

text \<open>
  C5. A node that needs a new bundle raises the usage error exactly when its new
  description was built, the run is not a dry run, the memo lookup gave no match and its
  bundle type is neither make nor run. A usage error of the traversal comes from such a
  node of the cache and never from a dry run. An error of the traversal is the outcome
  of \<^verbatim>\<open>mimic_bundles\<close>: no plan is returned, and the calls made before the error,
  creations included, remain in the log of the store. The error aborts what remains: an
  error raised when a node is finished is the error of \<^verbatim>\<open>recurse\<close> on that node; an
  error of a dependency is the error of the node that lists it, the dependencies after it
  are not resolved and the node is not finished; an error of an id of the driver loop
  ends the loop; and the error of the loop or of the designated output is the error of
  the traversal.
\<close>

theorem usage_error_on_creation:
  "(make_new E u old_info nd s = Err (UsageError m) s' \<longleftrightarrow>
      ((\<exists>new_info. build_new_info E u old_info nd = Inr new_info)
       \<and> \<not> dry_run (args E)
       \<and> \<not> (memoize (args E) \<and> fst (fetch_memoized E old_info nd s) \<noteq> [])
       \<and> bundle_type old_info \<noteq> ''make'' \<and> bundle_type old_info \<noteq> ''run''
       \<and> m = not_make_or_run u
       \<and> s' = snd (fetch_memoized E old_info nd s)))
   \<and> (replay C specs a n log = Err (UsageError m) t \<longrightarrow>
        \<not> dry_run a
        \<and> (\<exists>v old. map_of (infos (replay_env C specs a log)) v = Some old
              \<and> bundle_type old \<noteq> ''make'' \<and> bundle_type old \<noteq> ''run''
              \<and> m = not_make_or_run v))
   \<and> (replay C specs a n log = Err e t \<longrightarrow>
        mimic_bundles C specs a n log = Err e (calls t)
        \<and> (\<exists>cs. calls t = log @ cs
              \<and> created_bundles (calls t) = created_bundles log @ created_bundles cs))
   \<and> (old_to_new s u = None \<and> map_of (infos E) u = Some old_info
        \<and> resolve_deps (recurse E k) (dependencies old_info) s = Ok nd s1
        \<and> needs_new E s1 u old_info
        \<and> make_new E u old_info nd s1 = Err e s2
      \<longrightarrow> recurse E (Suc k) u s = Err e s2)
   \<and> (old_to_new s u = None \<and> map_of (infos E) u = Some old_info
        \<and> dependencies old_info = resolved @ dep # pending
        \<and> resolve_deps (recurse E k) resolved s = Ok nd s1
        \<and> recurse E k (parent_uuid dep) s1 = Err e s2
      \<longrightarrow> recurse E (Suc k) u s = Err e s2)
   \<and> (recurse_all E k visited s = Ok x s1 \<and> recurse E k w s1 = Err e s2
      \<longrightarrow> recurse_all E k (visited @ w # unvisited) s = Err e s2)
   \<and> (truthy_id (old_output (args E)) \<and> recurse E k (old_output (args E)) s = Err e s2
      \<longrightarrow> traverse E k us s = Err e s2)
   \<and> (\<not> truthy_id (old_output (args E)) \<and> recurse_all E k us s = Err e s2
      \<longrightarrow> traverse E k us s = Err e s2)"
proof (intro conjI impI)
  show "make_new E u old_info nd s = Err (UsageError m) s' \<longleftrightarrow>
      ((\<exists>new_info. build_new_info E u old_info nd = Inr new_info)
       \<and> \<not> dry_run (args E)
       \<and> \<not> (memoize (args E) \<and> fst (fetch_memoized E old_info nd s) \<noteq> [])
       \<and> bundle_type old_info \<noteq> ''make'' \<and> bundle_type old_info \<noteq> ''run''
       \<and> m = not_make_or_run u
       \<and> s' = snd (fetch_memoized E old_info nd s))"
    by (rule make_new_usage_error)
next
  assume r: "replay C specs a n log = Err (UsageError m) t"
  from usage_error_origin [of C specs a n log m t, THEN conjunct1, rule_format, OF r]
  show "\<not> dry_run a"
    and "\<exists>v old. map_of (infos (replay_env C specs a log)) v = Some old
              \<and> bundle_type old \<noteq> ''make'' \<and> bundle_type old \<noteq> ''run''
              \<and> m = not_make_or_run v"
    by simp_all
next
  assume r: "replay C specs a n log = Err e t"
  from usage_error_origin [of C specs a n log _ t e, THEN conjunct2, rule_format, OF r]
  show "mimic_bundles C specs a n log = Err e (calls t)"
    and "\<exists>cs. calls t = log @ cs
              \<and> created_bundles (calls t) = created_bundles log @ created_bundles cs"
    by simp_all
next
  assume "old_to_new s u = None \<and> map_of (infos E) u = Some old_info
        \<and> resolve_deps (recurse E k) (dependencies old_info) s = Ok nd s1
        \<and> needs_new E s1 u old_info
        \<and> make_new E u old_info nd s1 = Err e s2"
  then show "recurse E (Suc k) u s = Err e s2"
    by (simp add: recurse_body_def)
next
  assume h: "old_to_new s u = None \<and> map_of (infos E) u = Some old_info
        \<and> dependencies old_info = resolved @ dep # pending
        \<and> resolve_deps (recurse E k) resolved s = Ok nd s1
        \<and> recurse E k (parent_uuid dep) s1 = Err e s2"
  then have "resolve_deps (recurse E k) (resolved @ dep # pending) s = Err e s2"
    by (intro resolve_deps_aborts [where nd = nd and ?s1.0 = s1]) simp_all
  with h show "recurse E (Suc k) u s = Err e s2"
    by (simp add: recurse_body_def)
next
  assume "recurse_all E k visited s = Ok x s1 \<and> recurse E k w s1 = Err e s2"
  then show "recurse_all E k (visited @ w # unvisited) s = Err e s2"
    by (intro recurse_all_aborts [where x = x and ?s1.0 = s1]) simp_all
next
  assume "truthy_id (old_output (args E)) \<and> recurse E k (old_output (args E)) s = Err e s2"
  then show "traverse E k us s = Err e s2" by (simp add: traverse_def)
next
  assume "\<not> truthy_id (old_output (args E)) \<and> recurse_all E k us s = Err e s2"
  then show "traverse E k us s = Err e s2" by (simp add: traverse_def)
qed

text \<open>
  \<open>G\<close> depends on \<open>F\<close>, which is dataset-typed and depends on \<open>B\<close>, which depends on the
  replaced input \<open>A\<close>. Replaying \<open>G\<close> creates \<open>new-b\<close>, then \<open>F\<close> raises inside the call
  on \<open>G\<close>: the error is the outcome, \<open>G\<close> is never created, and the creation of \<open>new-b\<close>
  stays in the log.
\<close>

theorem usage_error_on_creation_witness:
  "(case mimic_bundles nested_client example_specs
       (example_args\<lparr>old_output := Id ''G'', old_inputs := [Id ''A''], new_inputs := [Id ''A2''],
          depth := 3\<rparr>) (Suc (Suc (Suc (Suc 0)))) [] of
      Err e log \<Rightarrow> e = UsageError (not_make_or_run (Id ''F''))
        \<and> map (\<lambda>b. map_of (metadata b) ''name'') (created_bundles log) = [Some (JStr ''b'')]
    | _ \<Rightarrow> False)"
proof -
  let ?a = "example_args\<lparr>old_output := Id ''G'', old_inputs := [Id ''A''],
              new_inputs := [Id ''A2''], depth := 3\<rparr>"
  let ?r = "replay nested_client example_specs ?a (Suc (Suc (Suc (Suc 0)))) []"
  have ev: "(case ?r of
      Err e t \<Rightarrow> e = UsageError (not_make_or_run (Id ''F''))
           \<and> map (\<lambda>b. map_of (metadata b) ''name'') (created_bundles (calls t)) = [Some (JStr ''b'')]
    | _ \<Rightarrow> False)"
    by (simp add: engine_defs example_defs nested_defs numeral_3_eq_3)
  obtain t where r: "?r = Err (UsageError (not_make_or_run (Id ''F''))) t"
    and c: "map (\<lambda>b. map_of (metadata b) ''name'') (created_bundles (calls t)) = [Some (JStr ''b'')]"
  proof (cases ?r)
    case (Ok x s)
    with ev show ?thesis by simp
  next
    case (Err e s)
    with ev that show ?thesis by simp
  next
    case OutOfFuel
    with ev show ?thesis by simp
  qed
  note th = usage_error_on_creation [where C = nested_client and specs = example_specs
      and a = ?a and n = "Suc (Suc (Suc (Suc 0)))" and log = "[]" and t = t
      and e = "UsageError (not_make_or_run (Id ''F''))"]
  from th [THEN conjunct2, THEN conjunct2, THEN conjunct1, rule_format, OF r]
  have m: "mimic_bundles nested_client example_specs ?a (Suc (Suc (Suc (Suc 0)))) []
     = Err (UsageError (not_make_or_run (Id ''F''))) (calls t)"
    by (rule conjunct1)
  show ?thesis unfolding m using c by simp
qed

section \<open>No anchor\<close>

lemma resolve_deps_idle:
  assumes rec: "\<And>p t. downstream t = {} \<Longrightarrow>
      rec p t = OutOfFuel \<or> (\<exists>v t'. rec p t = Ok v t' \<and> idle t t')"
    and "downstream s = {}"
  shows "resolve_deps rec deps s = OutOfFuel
       \<or> (\<exists>nd s'. resolve_deps rec deps s = Ok nd s' \<and> idle s s')"
  using assms(2)
proof (induction deps arbitrary: s)
  case Nil
  then show ?case by (simp add: idle_def)
next
  case (Cons dep deps)
  from rec [OF Cons.prems, of "parent_uuid dep"] show ?case
  proof
    assume "rec (parent_uuid dep) s = OutOfFuel"
    then show ?thesis by simp
  next
    assume "\<exists>v t'. rec (parent_uuid dep) s = Ok v t' \<and> idle s t'"
    then obtain v s1 where first: "rec (parent_uuid dep) s = Ok v s1" and i1: "idle s s1"
      by blast
    from i1 have "downstream s1 = {}" by (simp add: idle_def)
    from Cons.IH [OF this] show ?thesis
    proof
      assume "resolve_deps rec deps s1 = OutOfFuel"
      with first show ?thesis by simp
    next
      assume "\<exists>nd s'. resolve_deps rec deps s1 = Ok nd s' \<and> idle s1 s'"
      then obtain nd s2 where "resolve_deps rec deps s1 = Ok nd s2" and "idle s1 s2" by blast
      with first i1 show ?thesis by (auto simp add: idle_def)
    qed
  qed
qed

lemma recurse_idle:
  assumes "old_inputs (args E) = []"
    and "map_of (infos E) (old_output (args E)) = None"
    and "downstream s = {}"
  shows "recurse E n u s = OutOfFuel \<or> (\<exists>v s'. recurse E n u s = Ok v s' \<and> idle s s')"
  using assms(3)
proof (induction n arbitrary: u s)
  case 0
  then show ?case by simp
next
  case (Suc n)
  show ?case
  proof (cases "old_to_new s u")
    case (Some v)
    with Suc.prems show ?thesis by (simp add: recurse_body_def idle_def)
  next
    case None
    show ?thesis
    proof (cases "map_of (infos E) u")
      case no_info: None
      with None Suc.prems show ?thesis by (simp add: recurse_body_def idle_def)
    next
      case (Some old_info)
      with assms(2) have not_output: "u \<noteq> old_output (args E)" by auto
      from resolve_deps_idle [where rec = "recurse E n" and deps = "dependencies old_info",
          OF Suc.IH Suc.prems]
      show ?thesis
      proof
        assume "resolve_deps (recurse E n) (dependencies old_info) s = OutOfFuel"
        with None Some show ?thesis by (simp add: recurse_body_def)
      next
        assume "\<exists>nd s'. resolve_deps (recurse E n) (dependencies old_info) s = Ok nd s' \<and> idle s s'"
        then obtain nd s1 where
          deps: "resolve_deps (recurse E n) (dependencies old_info) s = Ok nd s1"
          and i1: "idle s s1"
          by blast
        from i1 not_output have "\<not> needs_new E s1 u old_info"
          by (simp add: needs_new_def lone_output_def downstream_of_inputs_def idle_def)
        with None Some deps i1 show ?thesis
          by (simp add: recurse_body_def idle_def)
      qed
    qed
  qed
qed

lemma recurse_all_idle:
  assumes "old_inputs (args E) = []"
    and "map_of (infos E) (old_output (args E)) = None"
    and "downstream s = {}"
  shows "recurse_all E n us s = OutOfFuel \<or> (\<exists>s'. recurse_all E n us s = Ok () s' \<and> idle s s')"
  using assms(3)
proof (induction us arbitrary: s)
  case Nil
  then show ?case by (simp add: idle_def)
next
  case (Cons u us)
  from recurse_idle [OF assms(1,2) Cons.prems, of n u] show ?case
  proof
    assume "recurse E n u s = OutOfFuel"
    then show ?thesis by simp
  next
    assume "\<exists>v s'. recurse E n u s = Ok v s' \<and> idle s s'"
    then obtain v s1 where first: "recurse E n u s = Ok v s1" and i1: "idle s s1" by blast
    from i1 have "downstream s1 = {}" by (simp add: idle_def)
    from Cons.IH [OF this] first i1 show ?thesis by (auto simp add: idle_def)
  qed
qed

text \<open>
  C9. With no designated output and no old inputs, outside dry-run and shadow mode,
  \<^verbatim>\<open>mimic_bundles\<close> never returns a plan: when the traversal returns, reading
  \<^verbatim>\<open>anchor_uuid\<close> raises the UnboundLocalError. When no cached description is keyed by
  the (falsy) designated output, the traversal creates nothing, and the invocation either
  does not return or raises that error with the calls of the graph phase only.
\<close>

theorem no_anchor_is_unbound:
  assumes "\<not> truthy_id (old_output a)" and "old_inputs a = []"
    and "\<not> dry_run a" and "\<not> shadow a"
  shows "(\<forall>p l. mimic_bundles C specs a n log \<noteq> Ok p l)
       \<and> (\<forall>x s. replay C specs a n log = Ok x s
             \<longrightarrow> mimic_bundles C specs a n log = Err (UnboundLocalError ''anchor_uuid'') (calls s))
       \<and> (map_of (fst (snd (build_graph C a log))) (old_output a) = None
             \<longrightarrow> mimic_bundles C specs a n log = OutOfFuel
                 \<or> mimic_bundles C specs a n log
                     = Err (UnboundLocalError ''anchor_uuid'') (snd (snd (build_graph C a log))))"
proof -
  let ?E = "replay_env C specs a log"
  have anchor: "anchor_uuid a = Inl (UnboundLocalError ''anchor_uuid'')"
    using assms(1,2) by (simp add: anchor_uuid_def)
  have ok: "mimic_bundles C specs a n log = Err (UnboundLocalError ''anchor_uuid'') (calls s)"
    if "replay C specs a n log = Ok x s" for x s
    using that assms(3,4) anchor by (simp add: mimic_bundles_def place_def replay_env_def)
  have never: "mimic_bundles C specs a n log \<noteq> Ok p l" for p l
  proof (cases "replay C specs a n log")
    case (Ok x s)
    from ok [OF this] show ?thesis by simp
  next
    case (Err e s)
    then show ?thesis by (simp add: mimic_bundles_def)
  next
    case OutOfFuel
    then show ?thesis by (simp add: mimic_bundles_def)
  qed
  have quiet: "mimic_bundles C specs a n log = OutOfFuel
        \<or> mimic_bundles C specs a n log
            = Err (UnboundLocalError ''anchor_uuid'') (snd (snd (build_graph C a log)))"
    if uncached: "map_of (fst (snd (build_graph C a log))) (old_output a) = None"
  proof -
    let ?s0 = "seed a (snd (snd (build_graph C a log)))"
    have "old_inputs (args ?E) = []" using assms(2) by (simp add: replay_env_def)
    moreover have "map_of (infos ?E) (old_output (args ?E)) = None"
      using uncached by (simp add: replay_env_def)
    moreover have "downstream ?s0 = {}" using assms(2) by (simp add: seed_simps)
    ultimately have "recurse_all ?E n (fst (build_graph C a log)) ?s0 = OutOfFuel
        \<or> (\<exists>s'. recurse_all ?E n (fst (build_graph C a log)) ?s0 = Ok () s' \<and> idle ?s0 s')"
      by (rule recurse_all_idle)
    then show ?thesis
    proof
      assume "recurse_all ?E n (fst (build_graph C a log)) ?s0 = OutOfFuel"
      with assms(1) have "replay C specs a n log = OutOfFuel"
        by (simp add: replay_def traverse_def replay_env_def)
      then show ?thesis by (simp add: mimic_bundles_def)
    next
      assume "\<exists>s'. recurse_all ?E n (fst (build_graph C a log)) ?s0 = Ok () s' \<and> idle ?s0 s'"
      then obtain s' where r: "recurse_all ?E n (fst (build_graph C a log)) ?s0 = Ok () s'"
        and i: "idle ?s0 s'" by blast
      from r assms(1) have "replay C specs a n log = Ok () s'"
        by (simp add: replay_def traverse_def replay_env_def)
      from ok [OF this] i show ?thesis by (simp add: idle_def seed_simps)
    qed
  qed
  from never ok quiet show ?thesis by blast
qed

theorem no_anchor_is_unbound_witness:
  "mimic_bundles (example_client []) example_specs example_args (Suc 0) []
     = Err (UnboundLocalError ''anchor_uuid'') [FetchBundles (SpecsDepth [] 0)]"
proof -
  have pre: "\<not> truthy_id (old_output example_args)" "old_inputs example_args = []"
    "\<not> dry_run example_args" "\<not> shadow example_args"
    by (simp_all add: example_args_def truthy_id_def)
  have r: "replay (example_client []) example_specs example_args (Suc 0) []
      = Ok () (seed example_args [FetchBundles (SpecsDepth [] 0)])"
    by (simp add: replay_def traverse_def build_graph_def replay_env_def
        get_self_and_ancestors_def initial_params_def truthy_id_def by_uuid_def example_defs)
  from no_anchor_is_unbound [OF pre, THEN conjunct2, THEN conjunct1, rule_format, OF r]
  show ?thesis by (simp add: seed_simps)
qed

section \<open>Which nodes need a new bundle\<close>

lemma recurse_downstream_mono:
  "recurse E n u s = Ok v s' \<Longrightarrow> downstream s \<subseteq> downstream s'"
  using recurse_grows [of E n u s s'] by (simp add: grows_def)

lemma resolve_deps_touched:
  assumes touched: "\<And>p t v t'. rec p t = Ok v t' \<Longrightarrow> plan t' \<noteq> plan t \<or> calls t' \<noteq> calls t
      \<Longrightarrow> p \<in> downstream t'"
    and mono: "\<And>p t v t'. rec p t = Ok v t' \<Longrightarrow> downstream t \<subseteq> downstream t'"
  shows "resolve_deps rec deps s = Ok nd s' \<Longrightarrow>
     downstream s \<subseteq> downstream s'
     \<and> (plan s' \<noteq> plan s \<or> calls s' \<noteq> calls s
          \<longrightarrow> (\<exists>dep \<in> set deps. parent_uuid dep \<in> downstream s'))"
proof (induction deps arbitrary: s nd)
  case Nil
  then show ?case by simp
next
  case (Cons dep deps)
  from Cons.prems obtain p s1 nds where
    first: "rec (parent_uuid dep) s = Ok p s1" and rest: "resolve_deps rec deps s1 = Ok nds s'"
    by (auto split: outcome.splits)
  from Cons.IH [OF rest] have
    ih: "downstream s1 \<subseteq> downstream s'"
      "plan s' \<noteq> plan s1 \<or> calls s' \<noteq> calls s1
         \<longrightarrow> (\<exists>dep \<in> set deps. parent_uuid dep \<in> downstream s')"
    by simp_all
  from mono [OF first] ih(1) have "downstream s \<subseteq> downstream s'" by blast
  moreover have "\<exists>d \<in> set (dep # deps). parent_uuid d \<in> downstream s'"
    if ch: "plan s' \<noteq> plan s \<or> calls s' \<noteq> calls s"
  proof (cases "plan s1 \<noteq> plan s \<or> calls s1 \<noteq> calls s")
    case True
    from touched [OF first True] ih(1) show ?thesis by auto
  next
    case False
    with ch have "plan s' \<noteq> plan s1 \<or> calls s' \<noteq> calls s1" by auto
    with ih(2) show ?thesis by auto
  qed
  ultimately show ?case by blast
qed

lemma make_new_downstream:
  "make_new E u old_info nd s = Ok v s' \<Longrightarrow> u \<in> downstream s'"
  by (auto simp add: make_new_def record_new_def Let_def split: sum.splits outcome.splits)

lemma recurse_touched:
  "recurse E n u s = Ok v s' \<Longrightarrow> plan s' \<noteq> plan s \<or> calls s' \<noteq> calls s \<Longrightarrow> u \<in> downstream s'"
proof (induction n arbitrary: u s v s')
  case 0
  then show ?case by simp
next
  case (Suc n)
  from Suc.prems obtain old_info where none: "old_to_new s u = None"
    and cached: "map_of (infos E) u = Some old_info"
    by (auto simp add: recurse_body_def split: option.splits)
  from Suc.prems(1) none cached obtain nd s1 where
    deps: "resolve_deps (recurse E n) (dependencies old_info) s = Ok nd s1"
    by (auto simp add: recurse_body_def split: outcome.splits)
  have res: "downstream s \<subseteq> downstream s1
     \<and> (plan s1 \<noteq> plan s \<or> calls s1 \<noteq> calls s
          \<longrightarrow> (\<exists>dep \<in> set (dependencies old_info). parent_uuid dep \<in> downstream s1))"
    using deps
    by (rule resolve_deps_touched [where rec = "recurse E n", rotated 2])
       (erule Suc.IH, assumption, erule recurse_downstream_mono)
  show ?case
  proof (cases "needs_new E s1 u old_info")
    case True
    with Suc.prems(1) none cached deps have "make_new E u old_info nd s1 = Ok v s'"
      by (simp add: recurse_body_def)
    then show ?thesis by (rule make_new_downstream)
  next
    case False
    with Suc.prems(1) none cached deps
    have s': "s' = s1\<lparr>old_to_new := (old_to_new s1)(u \<mapsto> u)\<rparr>"
      by (auto simp add: recurse_body_def)
    from False have "\<not> (\<exists>dep \<in> set (dependencies old_info). parent_uuid dep \<in> downstream s1)"
      by (simp add: needs_new_def downstream_of_inputs_def)
    with res have "plan s1 = plan s \<and> calls s1 = calls s" by blast
    with s' Suc.prems(2) show ?thesis by simp
  qed
qed

text \<open>
  C3. For a node with a cached description and no entry in the substitution map (so
  not an explicit input), once its dependencies are resolved: it needs a new bundle iff
  there is no explicit input pair and it is the designated old output, or the original
  parent of one of its dependencies is in the downstream set. When it does not,
  \<^verbatim>\<open>recurse\<close> returns its own old id, caches that, and the whole call has appended
  nothing to the plan and called nothing on the store; when it does, the call is the
  construction of the new bundle. The old and new inputs are lists of the same length.
\<close>

theorem needs_new_classification:
  assumes "length (old_inputs (args E)) = length (new_inputs (args E))"
    and "old_to_new s u = None"
    and "map_of (infos E) u = Some old_info"
    and "resolve_deps (recurse E n) (dependencies old_info) s = Ok new_dependencies s1"
  shows "(needs_new E s1 u old_info \<longleftrightarrow>
           (zip (old_inputs (args E)) (new_inputs (args E)) = [] \<and> u = old_output (args E))
           \<or> (\<exists>dep \<in> set (dependencies old_info). parent_uuid dep \<in> downstream s1))
       \<and> (\<not> needs_new E s1 u old_info \<longrightarrow>
            recurse E (Suc n) u s = Ok u (s1\<lparr>old_to_new := (old_to_new s1)(u \<mapsto> u)\<rparr>)
            \<and> plan s1 = plan s \<and> calls s1 = calls s)
       \<and> (needs_new E s1 u old_info \<longrightarrow>
            recurse E (Suc n) u s = make_new E u old_info new_dependencies s1)"
proof -
  have pairs: "zip (old_inputs (args E)) (new_inputs (args E)) = []
      \<longleftrightarrow> length (old_inputs (args E)) = 0"
    using assms(1) by (cases "old_inputs (args E)"; cases "new_inputs (args E)") simp_all
  have iff: "needs_new E s1 u old_info \<longleftrightarrow>
           (zip (old_inputs (args E)) (new_inputs (args E)) = [] \<and> u = old_output (args E))
           \<or> (\<exists>dep \<in> set (dependencies old_info). parent_uuid dep \<in> downstream s1)"
    unfolding pairs by (simp add: needs_new_def lone_output_def downstream_of_inputs_def)
  have res: "downstream s \<subseteq> downstream s1
     \<and> (plan s1 \<noteq> plan s \<or> calls s1 \<noteq> calls s
          \<longrightarrow> (\<exists>dep \<in> set (dependencies old_info). parent_uuid dep \<in> downstream s1))"
    using assms(4)
    by (rule resolve_deps_touched [where rec = "recurse E n", rotated 2])
       (erule recurse_touched, assumption, erule recurse_downstream_mono)
  have keep: "recurse E (Suc n) u s = Ok u (s1\<lparr>old_to_new := (old_to_new s1)(u \<mapsto> u)\<rparr>)
            \<and> plan s1 = plan s \<and> calls s1 = calls s"
    if no: "\<not> needs_new E s1 u old_info"
  proof -
    from no have "\<not> (\<exists>dep \<in> set (dependencies old_info). parent_uuid dep \<in> downstream s1)"
      by (simp add: needs_new_def downstream_of_inputs_def)
    with res have "plan s1 = plan s \<and> calls s1 = calls s" by blast
    with no assms(2,3,4) show ?thesis by (simp add: recurse_body_def)
  qed
  have new: "recurse E (Suc n) u s = make_new E u old_info new_dependencies s1"
    if "needs_new E s1 u old_info"
    using that assms(2,3,4) by (simp add: recurse_body_def)
  from iff keep new show ?thesis by blast
qed

text \<open>
  With the input \<open>A\<close> replaced by \<open>A2\<close> and the output \<open>B\<close>, the dataset \<open>D\<close> is an
  untouched sibling and keeps its id, and \<open>B\<close>, whose parent \<open>A\<close> is downstream, needs a
  new bundle.
\<close>

theorem needs_new_classification_witness:
  "recurse (example_env (example_args\<lparr>old_inputs := [Id ''A''], new_inputs := [Id ''A2''],
                                       old_output := Id ''B''\<rparr>)) (Suc 0) (Id ''D'')
      (seed (example_args\<lparr>old_inputs := [Id ''A''], new_inputs := [Id ''A2''],
                           old_output := Id ''B''\<rparr>) [])
   = Ok (Id ''D'')
       ((seed (example_args\<lparr>old_inputs := [Id ''A''], new_inputs := [Id ''A2''],
                             old_output := Id ''B''\<rparr>) [])
          \<lparr>old_to_new := [Id ''A'' \<mapsto> Id ''A2'', Id ''D'' \<mapsto> Id ''D'']\<rparr>)
   \<and> needs_new (example_env (example_args\<lparr>old_inputs := [Id ''A''], new_inputs := [Id ''A2''],
                                       old_output := Id ''B''\<rparr>))
       (seed (example_args\<lparr>old_inputs := [Id ''A''], new_inputs := [Id ''A2''],
                           old_output := Id ''B''\<rparr>) [])
       (Id ''B'') (mk_bundle ''B'' ''run'' ''b'' [mk_dep ''A'' ''B''])"
proof -
  let ?a = "example_args\<lparr>old_inputs := [Id ''A''], new_inputs := [Id ''A2''],
                        old_output := Id ''B''\<rparr>"
  let ?E = "example_env ?a"
  let ?s = "seed ?a []"
  have len: "length (old_inputs (args ?E)) = length (new_inputs (args ?E))"
    by (simp add: example_defs)
  have s: "?s = \<lparr>old_to_new = [Id ''A'' \<mapsto> Id ''A2''], downstream = {Id ''A''},
                 created_uuids = {}, plan = [], calls = []\<rparr>"
    by (simp add: seed_def example_defs)
  have d1: "old_to_new ?s (Id ''D'') = None" by (simp add: s)
  have d2: "map_of (infos ?E) (Id ''D'') = Some (mk_bundle ''D'' ''dataset'' ''d'' [])"
    by (simp add: example_defs)
  have d3: "resolve_deps (recurse ?E 0) (dependencies (mk_bundle ''D'' ''dataset'' ''d'' [])) ?s
      = Ok [] ?s"
    by (simp add: mk_bundle_def)
  have b1: "old_to_new ?s (Id ''B'') = None" by (simp add: s)
  have b2: "map_of (infos ?E) (Id ''B'') = Some (mk_bundle ''B'' ''run'' ''b'' [mk_dep ''A'' ''B''])"
    by (simp add: example_defs)
  have b3: "resolve_deps (recurse ?E (Suc 0))
        (dependencies (mk_bundle ''B'' ''run'' ''b'' [mk_dep ''A'' ''B''])) ?s
      = Ok [\<lparr>parent_uuid = Id ''A2'', parent_path = [], child_uuid = Id ''B'',
              child_path = ''in'', dep_other = []\<rparr>] ?s"
    by (simp add: s mk_bundle_def mk_dep_def recurse_body_def)
  have "\<not> needs_new ?E ?s (Id ''D'') (mk_bundle ''D'' ''dataset'' ''d'' [])"
    using needs_new_classification [OF len d1 d2 d3, THEN conjunct1]
    by (simp add: seed_def example_defs)
  with needs_new_classification [OF len d1 d2 d3, THEN conjunct2, THEN conjunct1]
  have one: "recurse ?E (Suc 0) (Id ''D'') ?s
      = Ok (Id ''D'') (?s\<lparr>old_to_new := (old_to_new ?s)(Id ''D'' \<mapsto> Id ''D'')\<rparr>)"
    by blast
  have two: "needs_new ?E ?s (Id ''B'') (mk_bundle ''B'' ''run'' ''b'' [mk_dep ''A'' ''B''])"
    using needs_new_classification [OF len b1 b2 b3, THEN conjunct1]
    by (simp add: seed_def example_defs)
  have m: "(old_to_new ?s)(Id ''D'' \<mapsto> Id ''D'') = [Id ''A'' \<mapsto> Id ''A2'', Id ''D'' \<mapsto> Id ''D'']"
    by (simp add: s)
  from one [unfolded m] two show ?thesis by (intro conjI)
qed

section \<open>Termination\<close>

lemma make_new_returns: "make_new E u old_info nd s \<noteq> OutOfFuel"
  by (simp add: make_new_def create_or_reuse_def record_new_def Let_def
      split: sum.splits prod.splits)

lemma resolve_deps_returns:
  "(\<And>dep t. dep \<in> set deps \<Longrightarrow> rec (parent_uuid dep) t \<noteq> OutOfFuel)
     \<Longrightarrow> resolve_deps rec deps s \<noteq> OutOfFuel"
proof (induction deps arbitrary: s)
  case Nil
  then show ?case by simp
next
  case (Cons dep deps)
  have "rec (parent_uuid dep) s \<noteq> OutOfFuel" using Cons.prems by simp
  moreover have "resolve_deps rec deps t \<noteq> OutOfFuel" for t
    using Cons.IH Cons.prems by simp
  ultimately show ?case by (simp split: outcome.splits)
qed

lemma recurse_returns:
  fixes rank :: "ident \<Rightarrow> nat"
  assumes acyclic: "\<And>v old dep. map_of (infos E) v = Some old \<Longrightarrow> dep \<in> set (dependencies old)
      \<Longrightarrow> rank (parent_uuid dep) < rank v"
  shows "rank u < n \<Longrightarrow> recurse E n u s \<noteq> OutOfFuel"
proof (induction n arbitrary: u s)
  case 0
  then show ?case by simp
next
  case (Suc n)
  show ?case
  proof (cases "map_of (infos E) u")
    case None
    then show ?thesis by (simp add: recurse_body_def split: option.splits)
  next
    case (Some old_info)
    have "recurse E n (parent_uuid dep) t \<noteq> OutOfFuel"
      if "dep \<in> set (dependencies old_info)" for dep t
    proof -
      from acyclic [OF Some that] Suc.prems have "rank (parent_uuid dep) < n" by simp
      then show ?thesis by (rule Suc.IH)
    qed
    then have "resolve_deps (recurse E n) (dependencies old_info) s \<noteq> OutOfFuel"
      by (rule resolve_deps_returns)
    with Some show ?thesis
      by (simp add: recurse_body_def make_new_returns split: option.splits outcome.splits)
  qed
qed

lemma recurse_all_returns:
  "(\<And>u t. u \<in> set us \<Longrightarrow> recurse E n u t \<noteq> OutOfFuel) \<Longrightarrow> recurse_all E n us s \<noteq> OutOfFuel"
proof (induction us arbitrary: s)
  case Nil
  then show ?case by simp
next
  case (Cons u us)
  have "recurse E n u s \<noteq> OutOfFuel" using Cons.prems by simp
  moreover have "recurse_all E n us t \<noteq> OutOfFuel" for t using Cons.IH Cons.prems by simp
  ultimately show ?case by (simp split: outcome.splits)
qed

lemma rank_le_sum:
  fixes rank :: "ident \<Rightarrow> nat"
  shows "u \<in> set us \<Longrightarrow> rank u \<le> sum_list (map rank us)"
  by (induction us) auto

lemma add_rest_returns: "add_rest ws added p log \<noteq> OutOfFuel"
  by (induction p arbitrary: log) (simp_all split: ident.splits)

lemma place_returns: "place E s \<noteq> OutOfFuel"
  by (simp add: place_def add_rest_returns split: sum.splits ident.splits prod.splits)

lemma acyclic_cache_returns:
  fixes rank :: "ident \<Rightarrow> nat"
  assumes "\<forall>v old. map_of (fst (snd (build_graph C a log))) v = Some old
      \<longrightarrow> (\<forall>dep \<in> set (dependencies old). rank (parent_uuid dep) < rank v)"
  shows "\<exists>N. \<forall>n \<ge> N. mimic_bundles C specs a n log \<noteq> OutOfFuel"
proof -
  let ?E = "replay_env C specs a log"
  let ?us = "fst (build_graph C a log)"
  let ?N = "Suc (rank (old_output a) + sum_list (map rank ?us))"
  have acyclic: "rank (parent_uuid dep) < rank v"
    if "map_of (infos ?E) v = Some old" "dep \<in> set (dependencies old)" for v old dep
    using assms that by (auto simp add: replay_env_def)
  have "mimic_bundles C specs a n log \<noteq> OutOfFuel" if big: "?N \<le> n" for n
  proof -
    have one: "recurse ?E n u t \<noteq> OutOfFuel" if "rank u < n" for u t
      using that by (rule recurse_returns [where E = ?E and rank = rank, rotated]) (rule acyclic)
    have out: "recurse ?E n (old_output a) t \<noteq> OutOfFuel" for t
      using big by (intro one) simp
    have "recurse ?E n u t \<noteq> OutOfFuel" if "u \<in> set ?us" for u t
    proof -
      from that have "rank u \<le> sum_list (map rank ?us)"
        by (rule rank_le_sum)
      with big show ?thesis by (intro one) simp
    qed
    then have "recurse_all ?E n ?us t \<noteq> OutOfFuel" for t by (rule recurse_all_returns)
    with out have "replay C specs a n log \<noteq> OutOfFuel"
      by (simp add: replay_def traverse_def replay_env_def split: outcome.splits)
    then show ?thesis
      by (simp add: mimic_bundles_def place_returns split: outcome.splits)
  qed
  then show ?thesis by blast
qed

text \<open>The ancestors are within the depth.\<close>

lemma parents_of_mono:
  "map_of c \<subseteq>\<^sub>m map_of c' \<Longrightarrow> set (parents_of c v) \<subseteq> set (parents_of c' v)"
proof (cases "map_of c v")
  case None
  then show ?thesis by (simp add: parents_of_def)
next
  case (Some info)
  assume "map_of c \<subseteq>\<^sub>m map_of c'"
  with Some have "map_of c' v = Some info" by (auto simp add: map_le_def dom_def)
  with Some show ?thesis by (simp add: parents_of_def)
qed

lemma within_cache_mono:
  "map_of c \<subseteq>\<^sub>m map_of c' \<Longrightarrow> set (within c seeds k) \<subseteq> set (within c' seeds k)"
proof (induction k)
  case 0
  then show ?case by simp
next
  case (Suc k)
  from Suc have ih: "set (within c seeds k) \<subseteq> set (within c' seeds k)" by simp
  have "set (parents_of c v) \<subseteq> set (parents_of c' v)" for v
    using Suc.prems by (rule parents_of_mono)
  with ih show ?case by fastforce
qed

lemma within_seeds: "set seeds \<subseteq> set (within c seeds k)"
  by (induction k) auto

lemma within_step: "set (within c seeds k) \<subseteq> set (within c seeds (Suc k))"
  by simp

lemma within_parents:
  "v \<in> set (within c seeds k) \<Longrightarrow> set (parents_of c v) \<subseteq> set (within c seeds (Suc k))"
  by auto

lemma within_from:
  "set seeds' \<subseteq> set (within c seeds (Suc 0))
     \<Longrightarrow> set (within c seeds' k) \<subseteq> set (within c seeds (Suc k))"
proof (induction k)
  case 0
  then show ?case by simp
next
  case (Suc k)
  from Suc have ih: "set (within c seeds' k) \<subseteq> set (within c seeds (Suc k))" by simp
  show ?case
  proof
    fix x
    assume "x \<in> set (within c seeds' (Suc k))"
    then consider "x \<in> set (within c seeds' k)"
      | v where "v \<in> set (within c seeds' k)" "x \<in> set (parents_of c v)"
      by auto
    then show "x \<in> set (within c seeds (Suc (Suc k)))"
    proof cases
      case 1
      with ih have "x \<in> set (within c seeds (Suc k))" by blast
      then show ?thesis using within_step [of c seeds "Suc k"] by blast
    next
      case 2
      with ih have "v \<in> set (within c seeds (Suc k))" by blast
      from within_parents [OF this] 2(2) show ?thesis by blast
    qed
  qed
qed

lemma visit_cache:
  assumes "visit C (i0, v0, n0, l0) u = (i1, v1, n1, l1)"
  shows "map_of i0 \<subseteq>\<^sub>m map_of i1 \<and> set n1 \<subseteq> set n0 \<union> set (parents_of i1 u)"
proof (cases "u \<in> v0")
  case True
  with assms show ?thesis by (simp add: visit_def)
next
  case False
  show ?thesis
  proof (cases "map_of i0 u")
    case (Some info)
    with False assms show ?thesis
      by (auto simp add: visit_def parents_of_def)
  next
    case None
    with False assms have i1: "i1 = AList.update u (fetch_bundle C l0 u) i0"
      and n1: "set n1 \<subseteq> set n0 \<union> set (map parent_uuid (dependencies (fetch_bundle C l0 u)))"
      by (auto simp add: visit_def)
    from i1 None have "map_of i0 \<subseteq>\<^sub>m map_of i1"
      by (auto simp add: update_conv' map_le_def)
    moreover from i1 have "parents_of i1 u = map parent_uuid (dependencies (fetch_bundle C l0 u))"
      by (simp add: parents_of_def update_conv')
    ultimately show ?thesis using n1 by simp
  qed
qed

lemma visit_fold_cache:
  "foldl (visit C) (i0, v0, n0, l0) us = (i1, v1, n1, l1) \<Longrightarrow>
   map_of i0 \<subseteq>\<^sub>m map_of i1
   \<and> set n1 \<subseteq> set n0 \<union> (\<Union>v \<in> set us. set (parents_of i1 v))"
proof (induction us arbitrary: i0 v0 n0 l0)
  case Nil
  then show ?case by simp
next
  case (Cons u us)
  obtain i v m l where step: "visit C (i0, v0, n0, l0) u = (i, v, m, l)"
    by (cases "visit C (i0, v0, n0, l0) u") blast
  from visit_cache [OF step] have
    one: "map_of i0 \<subseteq>\<^sub>m map_of i" "set m \<subseteq> set n0 \<union> set (parents_of i u)" by simp_all
  from Cons.prems step have "foldl (visit C) (i, v, m, l) us = (i1, v1, n1, l1)" by simp
  from Cons.IH [OF this] have
    two: "map_of i \<subseteq>\<^sub>m map_of i1" "set n1 \<subseteq> set m \<union> (\<Union>v \<in> set us. set (parents_of i1 v))"
    by simp_all
  from one(1) two(1) have le: "map_of i0 \<subseteq>\<^sub>m map_of i1" by (rule map_le_trans)
  from parents_of_mono [OF two(1), of u] one(2)
  have "set m \<subseteq> set n0 \<union> set (parents_of i1 u)" by blast
  with two(2) have "set n1 \<subseteq> set n0 \<union> (\<Union>v \<in> set (u # us). set (parents_of i1 v))"
    by auto
  with le show ?case by blast
qed

lemma ancestor_rounds_within:
  "ancestor_rounds C k result frontier i0 v0 l0 = (result', i', l') \<Longrightarrow>
   map_of i0 \<subseteq>\<^sub>m map_of i'
   \<and> set result' \<subseteq> set result \<union> set (within i' frontier k)"
proof (induction k arbitrary: result frontier i0 v0 l0)
  case 0
  then show ?case by auto
next
  case (Suc k)
  obtain i1 v1 nxt l1 where round: "foldl (visit C) (i0, v0, [], l0) frontier = (i1, v1, nxt, l1)"
    by (cases "foldl (visit C) (i0, v0, [], l0) frontier") blast
  from visit_fold_cache [OF round] have
    one: "map_of i0 \<subseteq>\<^sub>m map_of i1" "set nxt \<subseteq> (\<Union>v \<in> set frontier. set (parents_of i1 v))"
    by simp_all
  from Suc.prems round
  have "ancestor_rounds C k (nxt @ result) nxt i1 v1 l1 = (result', i', l')" by simp
  from Suc.IH [OF this] have
    two: "map_of i1 \<subseteq>\<^sub>m map_of i'"
      "set result' \<subseteq> set (nxt @ result) \<union> set (within i' nxt k)"
    by simp_all
  from one(1) two(1) have le: "map_of i0 \<subseteq>\<^sub>m map_of i'" by (rule map_le_trans)
  have "set (parents_of i1 v) \<subseteq> set (parents_of i' v)" for v
    using two(1) by (rule parents_of_mono)
  with one(2) have "set nxt \<subseteq> (\<Union>v \<in> set frontier. set (parents_of i' v))" by blast
  then have first: "set nxt \<subseteq> set (within i' frontier (Suc 0))" by auto
  then have later: "set (within i' nxt k) \<subseteq> set (within i' frontier (Suc k))"
    by (rule within_from)
  have "set (within i' frontier (Suc 0)) \<subseteq> set (within i' frontier (Suc k))"
    by (induction k) auto
  with first have "set nxt \<subseteq> set (within i' frontier (Suc k))" by blast
  with two(2) later have "set result' \<subseteq> set result \<union> set (within i' frontier (Suc k))"
    by auto
  with le show ?case by blast
qed

lemma ancestors_within_depth:
  "set (fst (get_self_and_ancestors C d us i0 l0))
     \<subseteq> set (within (fst (snd (get_self_and_ancestors C d us i0 l0))) us (nat d))"
proof -
  obtain r i l where g: "ancestor_rounds C (nat d) us us i0 {} l0 = (r, i, l)"
    by (cases "ancestor_rounds C (nat d) us us i0 {} l0") blast
  from ancestor_rounds_within [OF g] have "set r \<subseteq> set us \<union> set (within i us (nat d))" by simp
  with within_seeds [of us i "nat d"] have "set r \<subseteq> set (within i us (nat d))" by blast
  with g show ?thesis by (simp add: get_self_and_ancestors_def)
qed

text \<open>A bundle that is its own parent.\<close>

lemma resolve_deps_entry:
  assumes rec: "\<And>p t v t'. rec p t = Ok v t' \<Longrightarrow> old_to_new t u = None \<Longrightarrow> old_to_new t' u = None"
  shows "resolve_deps rec deps s = Ok nd s' \<Longrightarrow> old_to_new s u = None \<Longrightarrow> old_to_new s' u = None"
proof (induction deps arbitrary: s nd)
  case Nil
  then show ?case by simp
next
  case (Cons dep deps)
  from Cons.prems(1) obtain p s1 nds where
    first: "rec (parent_uuid dep) s = Ok p s1" and rest: "resolve_deps rec deps s1 = Ok nds s'"
    by (auto split: outcome.splits)
  from rec [OF first Cons.prems(2)] have "old_to_new s1 u = None" .
  from Cons.IH [OF rest this] show ?case .
qed

lemma resolve_deps_split:
  "resolve_deps rec (resolved @ dep # pending) s = Ok nd s' \<Longrightarrow>
   \<exists>nd1 s1 p s2. resolve_deps rec resolved s = Ok nd1 s1 \<and> rec (parent_uuid dep) s1 = Ok p s2"
proof (induction resolved arbitrary: s nd)
  case Nil
  then show ?case by (auto split: outcome.splits)
next
  case (Cons d resolved)
  from Cons.prems obtain p s1 nds where
    first: "rec (parent_uuid d) s = Ok p s1"
    and rest: "resolve_deps rec (resolved @ dep # pending) s1 = Ok nds s'"
    by (auto split: outcome.splits)
  from Cons.IH [OF rest] first show ?case by auto
qed

lemma make_new_entry:
  "make_new E p old_info nd s = Ok v s' \<Longrightarrow> p \<noteq> u \<Longrightarrow> old_to_new s' u = old_to_new s u"
  by (auto simp add: make_new_def create_or_reuse_def fetch_memoized_def record_new_def Let_def
      split: sum.splits if_splits)

lemma self_parent_never_returns:
  assumes cached: "map_of (infos E) u = Some old"
    and self: "dep \<in> set (dependencies old)" "parent_uuid dep = u"
  shows "(\<forall>s v s'. old_to_new s u = None \<longrightarrow> recurse E n u s \<noteq> Ok v s')
       \<and> (\<forall>p s v s'. recurse E n p s = Ok v s' \<longrightarrow> old_to_new s u = None
             \<longrightarrow> old_to_new s' u = None)"
proof (induction n)
  case 0
  show ?case by simp
next
  case (Suc n)
  then have never: "recurse E n u t \<noteq> Ok v t'" if "old_to_new t u = None" for t v t'
    using that by blast
  from Suc have keeps: "old_to_new t' u = None"
    if "recurse E n p t = Ok v t'" "old_to_new t u = None" for p t v t'
    using that by blast
  have deps_keep: "old_to_new t' u = None"
    if "resolve_deps (recurse E n) ds t = Ok nd t'" "old_to_new t u = None" for ds t nd t'
    using that
    by (rule resolve_deps_entry [where rec = "recurse E n", rotated]) (erule keeps)
  from self(1) obtain resolved pending where
    split: "dependencies old = resolved @ dep # pending"
    by (auto simp add: in_set_conv_decomp)
  have P: "recurse E (Suc n) u s \<noteq> Ok v s'" if fresh: "old_to_new s u = None" for s v s'
  proof
    assume ok: "recurse E (Suc n) u s = Ok v s'"
    with fresh cached obtain nd s1 where
      "resolve_deps (recurse E n) (dependencies old) s = Ok nd s1"
      by (auto simp add: recurse_body_def split: outcome.splits)
    with split have "resolve_deps (recurse E n) (resolved @ dep # pending) s = Ok nd s1" by simp
    from resolve_deps_split [OF this] self(2) obtain nd1 t p t' where
      before: "resolve_deps (recurse E n) resolved s = Ok nd1 t"
      and loop: "recurse E n u t = Ok p t'" by auto
    from deps_keep [OF before fresh] have "old_to_new t u = None" .
    from never [OF this] loop show False by blast
  qed
  have Q: "old_to_new s' u = None"
    if ok: "recurse E (Suc n) p s = Ok v s'" and fresh: "old_to_new s u = None" for p s v s'
  proof (cases "p = u")
    case True
    with ok P [OF fresh] show ?thesis by blast
  next
    case False
    show ?thesis
    proof (cases "old_to_new s p")
      case (Some w)
      with ok fresh show ?thesis by (auto simp add: recurse_body_def)
    next
      case None
      show ?thesis
      proof (cases "map_of (infos E) p")
        case no_info: None
        with None ok fresh show ?thesis by (auto simp add: recurse_body_def)
      next
        case (Some info)
        from ok None Some obtain nd s1 where
          deps: "resolve_deps (recurse E n) (dependencies info) s = Ok nd s1"
          by (auto simp add: recurse_body_def split: outcome.splits)
        from deps_keep [OF deps fresh] have s1: "old_to_new s1 u = None" .
        show ?thesis
        proof (cases "needs_new E s1 p info")
          case True
          with ok None Some deps have "make_new E p info nd s1 = Ok v s'"
            by (simp add: recurse_body_def)
          from make_new_entry [OF this False] s1 show ?thesis by simp
        next
          case no: False
          with ok None Some deps have "s' = s1\<lparr>old_to_new := (old_to_new s1)(p \<mapsto> p)\<rparr>"
            by (auto simp add: recurse_body_def)
          with s1 False show ?thesis by simp
        qed
      qed
    qed
  qed
  from P Q show ?case by blast
qed

text \<open>
  C2 (as the code has it). Only the ancestor collection is bounded by the depth: every
  id it returns is a seed or is reached from a seed in at most \<^verbatim>\<open>depth\<close> steps from a
  cached bundle to one of its parents, cycles or not. \<^verbatim>\<open>recurse\<close> takes no depth. With
  an acyclic cache (the parents of a cached bundle have a smaller rank) every large
  enough recursion budget lets the invocation return or raise. Called on a cached bundle
  that has no entry in the substitution map and lists itself as a parent, \<^verbatim>\<open>recurse\<close>
  yields no result, whatever the budget.
\<close>

theorem depth_bounds_the_collection_only:
  fixes rank :: "ident \<Rightarrow> nat"
  shows "set (fst (get_self_and_ancestors C d seeds cache0 log0))
           \<subseteq> set (within (fst (snd (get_self_and_ancestors C d seeds cache0 log0))) seeds (nat d))
       \<and> ((\<forall>v old. map_of (fst (snd (build_graph C a log))) v = Some old
              \<longrightarrow> (\<forall>dep \<in> set (dependencies old). rank (parent_uuid dep) < rank v))
            \<longrightarrow> (\<exists>N. \<forall>n \<ge> N. mimic_bundles C specs a n log \<noteq> OutOfFuel))
       \<and> (old_to_new s u = None \<and> map_of (infos E) u = Some old_info
              \<and> (\<exists>dep \<in> set (dependencies old_info). parent_uuid dep = u)
            \<longrightarrow> (\<forall>n v s'. recurse E n u s \<noteq> Ok v s'))"
proof (intro conjI impI)
  show "set (fst (get_self_and_ancestors C d seeds cache0 log0))
           \<subseteq> set (within (fst (snd (get_self_and_ancestors C d seeds cache0 log0))) seeds (nat d))"
    by (rule ancestors_within_depth)
next
  assume "\<forall>v old. map_of (fst (snd (build_graph C a log))) v = Some old
              \<longrightarrow> (\<forall>dep \<in> set (dependencies old). rank (parent_uuid dep) < rank v)"
  then show "\<exists>N. \<forall>n \<ge> N. mimic_bundles C specs a n log \<noteq> OutOfFuel"
    by (rule acyclic_cache_returns)
next
  assume h: "old_to_new s u = None \<and> map_of (infos E) u = Some old_info
              \<and> (\<exists>dep \<in> set (dependencies old_info). parent_uuid dep = u)"
  then obtain dep where dep: "dep \<in> set (dependencies old_info)" "parent_uuid dep = u" by blast
  from h have cached: "map_of (infos E) u = Some old_info" and fresh: "old_to_new s u = None"
    by simp_all
  show "\<forall>n v s'. recurse E n u s \<noteq> Ok v s'"
  proof (intro allI)
    fix n v s'
    from self_parent_never_returns [OF cached dep, of n] fresh
    show "recurse E n u s \<noteq> Ok v s'" by blast
  qed
qed

text \<open>
  The cache of the replay of \<open>B\<close> with depth 2 holds \<open>B\<close> and its parent \<open>A\<close> and is
  acyclic; \<open>L\<close> is cached and lists itself as its parent.
\<close>

theorem depth_bounds_the_collection_only_witness:
  "(\<exists>N. \<forall>n \<ge> N. mimic_bundles (example_client []) example_specs
       (example_args\<lparr>old_output := Id ''B'', depth := 2\<rparr>) n [] \<noteq> OutOfFuel)
   \<and> (\<forall>n v s'. recurse (example_env example_args) n (Id ''L'') empty_state \<noteq> Ok v s')"
proof
  let ?rank = "\<lambda>u. if u = Id ''B'' then 1 else (0::nat)"
  have g: "fst (snd (build_graph (example_client [])
        (example_args\<lparr>old_output := Id ''B'', depth := 2\<rparr>) []))
      = [(Id ''B'', mk_bundle ''B'' ''run'' ''b'' [mk_dep ''A'' ''B'']),
         (Id ''A'', mk_bundle ''A'' ''run'' ''a'' [])]"
    by (simp add: build_graph_def get_self_and_ancestors_def visit_def initial_params_def
        truthy_id_def by_uuid_def example_defs numeral_2_eq_2)
  have acyclic: "\<forall>v old. map_of (fst (snd (build_graph (example_client [])
        (example_args\<lparr>old_output := Id ''B'', depth := 2\<rparr>) []))) v = Some old
      \<longrightarrow> (\<forall>dep \<in> set (dependencies old). ?rank (parent_uuid dep) < ?rank v)"
    unfolding g by (auto simp add: mk_bundle_def mk_dep_def split: if_splits)
  from depth_bounds_the_collection_only [where rank = ?rank and C = "example_client []"
      and a = "example_args\<lparr>old_output := Id ''B'', depth := 2\<rparr>" and log = "[]"
      and specs = example_specs, THEN conjunct2, THEN conjunct1, THEN mp, OF acyclic]
  show "\<exists>N. \<forall>n \<ge> N. mimic_bundles (example_client []) example_specs
       (example_args\<lparr>old_output := Id ''B'', depth := 2\<rparr>) n [] \<noteq> OutOfFuel" .
next
  have h: "old_to_new empty_state (Id ''L'') = None
      \<and> map_of (infos (example_env example_args)) (Id ''L'')
          = Some (mk_bundle ''L'' ''run'' ''l'' [mk_dep ''L'' ''L''])
      \<and> (\<exists>dep \<in> set (dependencies (mk_bundle ''L'' ''run'' ''l'' [mk_dep ''L'' ''L''])).
            parent_uuid dep = Id ''L'')"
    by (simp add: example_defs)
  from depth_bounds_the_collection_only [where s = empty_state and u = "Id ''L''"
      and E = "example_env example_args"
      and old_info = "mk_bundle ''L'' ''run'' ''l'' [mk_dep ''L'' ''L'']"
      and rank = "\<lambda>u. 0",
      THEN conjunct2, THEN conjunct2, THEN mp, OF h]
  show "\<forall>n v s'. recurse (example_env example_args) n (Id ''L'') empty_state \<noteq> Ok v s'"
    by blast
qed

text \<open>
  The claim as stated fails: \<open>L\<close> lists itself as its parent. With depth 0 the cache
  holds \<open>L\<close>, and \<^verbatim>\<open>recurse\<close> on \<open>L\<close> calls itself on \<open>L\<close> before it caches anything: no
  budget is enough.
\<close>

theorem unbounded_recursion_counterexample:
  "depth (example_args\<lparr>old_output := Id ''L''\<rparr>) = 0
   \<and> (\<forall>n. mimic_bundles (example_client []) example_specs
              (example_args\<lparr>old_output := Id ''L''\<rparr>) n [] = OutOfFuel)"
proof -
  let ?a = "example_args\<lparr>old_output := Id ''L''\<rparr>"
  let ?E = "replay_env (example_client []) example_specs ?a []"
  let ?s = "seed ?a (snd (snd (build_graph (example_client []) ?a [])))"
  have cached: "map_of (infos ?E) (Id ''L'') = Some (mk_bundle ''L'' ''run'' ''l'' [mk_dep ''L'' ''L''])"
    by (simp add: replay_env_def build_graph_def get_self_and_ancestors_def initial_params_def
        truthy_id_def by_uuid_def example_defs)
  have fresh: "old_to_new ?s (Id ''L'') = None"
    by (simp add: seed_def example_defs)
  have loop: "recurse ?E n (Id ''L'') ?s = OutOfFuel" for n
  proof (induction n)
    case 0
    show ?case by simp
  next
    case (Suc n)
    with cached fresh show ?case
      by (simp add: recurse_body_def mk_bundle_def mk_dep_def)
  qed
  have "mimic_bundles (example_client []) example_specs ?a n [] = OutOfFuel" for n
    using loop [of n]
    by (simp add: mimic_bundles_def replay_def traverse_def replay_env_def truthy_id_def
        example_args_def)
  then show ?thesis by (simp add: example_args_def)
qed

section \<open>Dry runs\<close>

lemma dry_simps:
  "infos (dry E) = infos E" "client (dry E) = client E"
  "METADATA_SPECS (dry E) = METADATA_SPECS E"
  "dry_run (args (dry E))" "old_inputs (args (dry E)) = old_inputs (args E)"
  "old_output (args (dry E)) = old_output (args E)"
  "new_output_name (args (dry E)) = new_output_name (args E)"
  "memoize (args (dry E)) = memoize (args E)"
  "metadata_override (args (dry E)) = metadata_override (args E)"
  by (simp_all add: dry_def)

lemma same_shape_refl: "same_shape s s"
  by (simp add: same_shape_def)

lemma needs_new_dry:
  "same_shape sd sr \<Longrightarrow> needs_new (dry E) sd u old_info = needs_new E sr u old_info"
  by (simp add: needs_new_def lone_output_def downstream_of_inputs_def dry_simps same_shape_def)

lemma build_new_info_dry:
  "build_new_info E u old_info nd = Inr new_info \<Longrightarrow>
   \<exists>new_info'. build_new_info (dry E) u old_info nd' = Inr new_info'"
  by (auto simp add: build_new_info_def rename_def dry_simps
      split: option.splits sum.splits if_splits jval.splits)

lemma make_new_dry:
  assumes "make_new E u old_info nd sr = Ok vr sr'" and "same_shape sd sr"
  shows "\<exists>vd sd'. make_new (dry E) u old_info nd' sd = Ok vd sd' \<and> same_shape sd' sr'"
proof -
  from assms(1) obtain new_info where b: "build_new_info E u old_info nd = Inr new_info"
    by (auto simp add: make_new_def split: sum.splits)
  from build_new_info_dry [OF b, of nd'] obtain new_info' where
    b': "build_new_info (dry E) u old_info nd' = Inr new_info'" by blast
  obtain found t where fm: "fetch_memoized (dry E) old_info (dependencies new_info') sd = (found, t)"
    by (cases "fetch_memoized (dry E) old_info (dependencies new_info') sd") blast
  then have t: "old_to_new t = old_to_new sd" "downstream t = downstream sd" "plan t = plan sd"
    by (auto simp add: fetch_memoized_def split: if_splits)
  from assms(1) b obtain ni sr1 where
    c: "create_or_reuse E u old_info new_info sr = Ok ni sr1"
    and sr': "record_new u old_info ni sr1 = Ok vr sr'"
    by (auto simp add: make_new_def split: outcome.splits)
  from c have sr1: "old_to_new sr1 = old_to_new sr" "downstream sr1 = downstream sr"
    "plan sr1 = plan sr"
    by (auto simp add: create_or_reuse_def fetch_memoized_def split: if_splits prod.splits)
  have "make_new (dry E) u old_info nd' sd
      = record_new u old_info (new_info'\<lparr>uuid := NoId\<rparr>) t"
    using b' fm by (simp add: make_new_def create_or_reuse_def dry_simps)
  moreover have "same_shape
      (t\<lparr>plan := plan t @ [(old_info, new_info'\<lparr>uuid := NoId\<rparr>)],
         downstream := insert u (downstream t),
         created_uuids := insert NoId (created_uuids t),
         old_to_new := (old_to_new t)(u \<mapsto> NoId)\<rparr>) sr'"
    using sr' sr1 t assms(2) by (auto simp add: record_new_def Let_def same_shape_def)
  ultimately show ?thesis by (simp add: record_new_def Let_def)
qed

lemma resolve_deps_dry:
  assumes rec: "\<And>p tr td v tr'. recr p tr = Ok v tr' \<Longrightarrow> same_shape td tr
      \<Longrightarrow> \<exists>vd td'. recd p td = Ok vd td' \<and> same_shape td' tr'"
  shows "resolve_deps recr deps sr = Ok ndr sr' \<Longrightarrow> same_shape sd sr
     \<Longrightarrow> \<exists>ndd sd'. resolve_deps recd deps sd = Ok ndd sd' \<and> same_shape sd' sr'"
proof (induction deps arbitrary: sr sd ndr)
  case Nil
  then show ?case by simp
next
  case (Cons dep deps)
  from Cons.prems(1) obtain p sr1 nds where
    first: "recr (parent_uuid dep) sr = Ok p sr1" and rest: "resolve_deps recr deps sr1 = Ok nds sr'"
    by (auto split: outcome.splits)
  from rec [OF first Cons.prems(2)] obtain pd sd1 where
    firstd: "recd (parent_uuid dep) sd = Ok pd sd1" and sh1: "same_shape sd1 sr1" by blast
  from Cons.IH [OF rest sh1] obtain ndd sd' where
    "resolve_deps recd deps sd1 = Ok ndd sd'" and "same_shape sd' sr'" by blast
  with firstd show ?case by simp
qed

lemma recurse_dry:
  "recurse E n u sr = Ok vr sr' \<Longrightarrow> same_shape sd sr
     \<Longrightarrow> \<exists>vd sd'. recurse (dry E) n u sd = Ok vd sd' \<and> same_shape sd' sr'"
proof (induction n arbitrary: u sr sd vr sr')
  case 0
  then show ?case by simp
next
  case (Suc n)
  from Suc.prems(2) have doms: "old_to_new sd u = None \<longleftrightarrow> old_to_new sr u = None"
    by (auto simp add: same_shape_def)
  show ?case
  proof (cases "old_to_new sr u")
    case (Some v)
    with doms obtain vd where "old_to_new sd u = Some vd" by auto
    with Some Suc.prems show ?thesis by (simp add: recurse_body_def)
  next
    case None
    with doms have noned: "old_to_new sd u = None" by simp
    show ?thesis
    proof (cases "map_of (infos E) u")
      case no_info: None
      with None noned Suc.prems show ?thesis by (simp add: recurse_body_def dry_simps)
    next
      case (Some old_info)
      from Suc.prems(1) None Some obtain ndr sr1 where
        deps: "resolve_deps (recurse E n) (dependencies old_info) sr = Ok ndr sr1"
        by (auto simp add: recurse_body_def split: outcome.splits)
      from deps Suc.prems(2)
      have "\<exists>ndd sd1. resolve_deps (recurse (dry E) n) (dependencies old_info) sd = Ok ndd sd1
          \<and> same_shape sd1 sr1"
        by (rule resolve_deps_dry [where recr = "recurse E n" and recd = "recurse (dry E) n",
              rotated]) (erule Suc.IH)
      then obtain ndd sd1 where
        depsd: "resolve_deps (recurse (dry E) n) (dependencies old_info) sd = Ok ndd sd1"
        and sh1: "same_shape sd1 sr1" by blast
      show ?thesis
      proof (cases "needs_new E sr1 u old_info")
        case True
        with Suc.prems(1) None Some deps have "make_new E u old_info ndr sr1 = Ok vr sr'"
          by (simp add: recurse_body_def)
        from make_new_dry [OF this sh1, of ndd] obtain vd sd' where
          "make_new (dry E) u old_info ndd sd1 = Ok vd sd'" and "same_shape sd' sr'" by blast
        with True noned Some depsd needs_new_dry [OF sh1, of E u old_info] show ?thesis
          by (simp add: recurse_body_def dry_simps)
      next
        case False
        with Suc.prems(1) None Some deps
        have "sr' = sr1\<lparr>old_to_new := (old_to_new sr1)(u \<mapsto> u)\<rparr>"
          by (auto simp add: recurse_body_def)
        with sh1 have "same_shape (sd1\<lparr>old_to_new := (old_to_new sd1)(u \<mapsto> u)\<rparr>) sr'"
          by (simp add: same_shape_def)
        with False noned Some depsd needs_new_dry [OF sh1, of E u old_info] show ?thesis
          by (simp add: recurse_body_def dry_simps)
      qed
    qed
  qed
qed

lemma recurse_all_dry:
  "recurse_all E n us sr = Ok x sr' \<Longrightarrow> same_shape sd sr
     \<Longrightarrow> \<exists>sd'. recurse_all (dry E) n us sd = Ok () sd' \<and> same_shape sd' sr'"
proof (induction us arbitrary: sr sd)
  case Nil
  then show ?case by simp
next
  case (Cons u us)
  from Cons.prems(1) obtain v sr1 where first: "recurse E n u sr = Ok v sr1"
    and rest: "recurse_all E n us sr1 = Ok x sr'"
    by (auto split: outcome.splits)
  from recurse_dry [OF first Cons.prems(2)] obtain vd sd1 where
    firstd: "recurse (dry E) n u sd = Ok vd sd1" and sh1: "same_shape sd1 sr1" by blast
  from Cons.IH [OF rest sh1] firstd show ?case by auto
qed

lemma traverse_dry:
  assumes "traverse E n us sr = Ok x sr'" and "same_shape sd sr"
  shows "\<exists>sd'. traverse (dry E) n us sd = Ok () sd' \<and> same_shape sd' sr'"
proof (cases "truthy_id (old_output (args E))")
  case True
  with assms(1) obtain v where "recurse E n (old_output (args E)) sr = Ok v sr'"
    by (auto simp add: traverse_def split: outcome.splits)
  from recurse_dry [OF this assms(2)] True show ?thesis
    by (auto simp add: traverse_def dry_simps)
next
  case False
  with assms(1) have "recurse_all E n us sr = Ok x sr'" by (simp add: traverse_def)
  from recurse_all_dry [OF this assms(2)] False show ?thesis
    by (simp add: traverse_def dry_simps)
qed

lemma build_graph_dry_run: "build_graph C (a\<lparr>dry_run := b\<rparr>) log = build_graph C a log"
  by (simp add: build_graph_def initial_params_def)

lemma seed_dry_run: "seed (a\<lparr>dry_run := b\<rparr>) log = seed a log"
  by (simp add: seed_def)

lemma replay_env_dry_run:
  "replay_env C specs (a\<lparr>dry_run := True\<rparr>) log = dry (replay_env C specs (a\<lparr>dry_run := b\<rparr>) log)"
  by (simp add: replay_env_def dry_def build_graph_dry_run)

lemma make_new_unset:
  assumes "dry_run (args E)" and "final (make_new E u old_info nd s) = Some s'"
    and "list_all (\<lambda>entry. uuid (snd entry) = NoId) (plan s)"
  shows "list_all (\<lambda>entry. uuid (snd entry) = NoId) (plan s')"
  using assms
  by (auto simp add: make_new_def create_or_reuse_def fetch_memoized_def record_new_def Let_def
      split: sum.splits if_splits)

lemma traverse_unset:
  assumes "dry_run (args E)" and "final (traverse E n us s) = Some s'"
    and "list_all (\<lambda>entry. uuid (snd entry) = NoId) (plan s)"
  shows "list_all (\<lambda>entry. uuid (snd entry) = NoId) (plan s')"
proof -
  let ?R = "\<lambda>s s'. list_all (\<lambda>entry. uuid (snd entry) = NoId) (plan s)
      \<longrightarrow> list_all (\<lambda>entry. uuid (snd entry) = NoId) (plan s')"
  have "?R s s'"
  proof (rule traverse_final [where R = ?R and E = E and n = n and us = us])
    show "?R x x" for x by simp
    show "?R x z" if "?R x y" "?R y z" for x y z using that by blast
    show "?R x y" if "final (make_new E w old_info nd x) = Some y" for w old_info nd x y
      using make_new_unset [OF assms(1) that] by blast
    show "?R x (x\<lparr>old_to_new := (old_to_new x)(w \<mapsto> w)\<rparr>)" for w x by simp
    show "final (traverse E n us s) = Some s'" by (rule assms(2))
  qed
  with assms(3) show ?thesis by blast
qed

lemma dry_replay_log:
  assumes "final (replay C specs (a\<lparr>dry_run := True\<rparr>) n log) = Some s"
  shows "\<exists>cs. calls s = log @ cs \<and> (\<forall>c \<in> set cs. \<not> is_create c)"
proof -
  let ?a = "a\<lparr>dry_run := True\<rparr>"
  let ?E = "replay_env C specs ?a log"
  from assms have "grows ?E (seed ?a (snd (snd (build_graph C ?a log)))) s"
    unfolding replay_def by (rule traverse_grows)
  then obtain cs where cs: "calls s = snd (snd (build_graph C ?a log)) @ cs"
    "\<forall>c \<in> set cs. engine_call ?E c"
    by (auto simp add: grows_def seed_simps)
  from cs(2) have quiet: "\<forall>c \<in> set cs. \<not> is_create c"
    by (simp add: engine_call_def replay_env_def)
  from build_graph_log [of C ?a log] obtain cs0 where
    cs0: "snd (snd (build_graph C ?a log)) = log @ cs0" "\<forall>c \<in> set cs0. \<not> is_create c"
    by blast
  from cs(1) cs0 quiet show ?thesis by (intro exI [of _ "cs0 @ cs"]) auto
qed

text \<open>
  C6 (as the code has it). A dry run makes no create call, whether it returns or
  raises, and every new description of its plan has its uuid unset. Whenever the real
  run of the same invocation returns a plan, the dry run returns one with the same old
  descriptions in the same order.
\<close>

theorem dry_run_plan:
  "(mimic_bundles C specs (a\<lparr>dry_run := True\<rparr>) n log = Ok p l \<longrightarrow>
      list_all (\<lambda>entry. uuid (snd entry) = NoId) p
      \<and> (\<exists>cs. l = log @ cs \<and> (\<forall>c \<in> set cs. \<not> is_create c)))
   \<and> (mimic_bundles C specs (a\<lparr>dry_run := True\<rparr>) n log = Err e l \<longrightarrow>
      (\<exists>cs. l = log @ cs \<and> (\<forall>c \<in> set cs. \<not> is_create c)))
   \<and> (mimic_bundles C specs (a\<lparr>dry_run := False\<rparr>) n log = Ok pr lr \<longrightarrow>
      (\<exists>pd ld. mimic_bundles C specs (a\<lparr>dry_run := True\<rparr>) n log = Ok pd ld
          \<and> map fst pd = map fst pr))"
proof (intro conjI impI)
  let ?a = "a\<lparr>dry_run := True\<rparr>"
  let ?E = "replay_env C specs ?a log"
  assume m: "mimic_bundles C specs ?a n log = Ok p l"
  then obtain x s where r: "replay C specs ?a n log = Ok x s" and p: "p = plan s" and l: "l = calls s"
    by (auto simp add: mimic_bundles_def split: outcome.splits)
  from r have f: "final (traverse ?E n (fst (build_graph C ?a log))
      (seed ?a (snd (snd (build_graph C ?a log))))) = Some s"
    by (simp add: replay_def)
  have "dry_run (args ?E)" by (simp add: replay_env_def)
  from traverse_unset [OF this f] p show "list_all (\<lambda>entry. uuid (snd entry) = NoId) p"
    by (simp add: seed_simps)
  from r have "final (replay C specs ?a n log) = Some s" by simp
  from dry_replay_log [OF this] l show "\<exists>cs. l = log @ cs \<and> (\<forall>c \<in> set cs. \<not> is_create c)"
    by simp
next
  let ?a = "a\<lparr>dry_run := True\<rparr>"
  assume "mimic_bundles C specs ?a n log = Err e l"
  then obtain s where r: "replay C specs ?a n log = Err e s" and l: "l = calls s"
    by (auto simp add: mimic_bundles_def split: outcome.splits)
  from r have "final (replay C specs ?a n log) = Some s" by simp
  from dry_replay_log [OF this] l show "\<exists>cs. l = log @ cs \<and> (\<forall>c \<in> set cs. \<not> is_create c)"
    by simp
next
  let ?r = "a\<lparr>dry_run := False\<rparr>"
  let ?d = "a\<lparr>dry_run := True\<rparr>"
  let ?E = "replay_env C specs ?r log"
  let ?s0 = "seed a (snd (snd (build_graph C a log)))"
  assume "mimic_bundles C specs ?r n log = Ok pr lr"
  then obtain x s where r: "replay C specs ?r n log = Ok x s" and pr: "pr = plan s"
    by (auto simp add: mimic_bundles_def split: outcome.splits if_splits)
  from r have "traverse ?E n (fst (build_graph C a log)) ?s0 = Ok x s"
    by (simp add: replay_def build_graph_dry_run seed_dry_run)
  from traverse_dry [OF this same_shape_refl] obtain sd where
    td: "traverse (dry ?E) n (fst (build_graph C a log)) ?s0 = Ok () sd"
    and sh: "same_shape sd s" by blast
  from td have "replay C specs ?d n log = Ok () sd"
    by (simp add: replay_def build_graph_dry_run seed_dry_run
        replay_env_dry_run [of C specs a log False])
  then have "mimic_bundles C specs ?d n log = Ok (plan sd) (calls sd)"
    by (simp add: mimic_bundles_def)
  with sh pr show "\<exists>pd ld. mimic_bundles C specs ?d n log = Ok pd ld \<and> map fst pd = map fst pr"
    by (simp add: same_shape_def)
qed

text \<open>
  Replaying \<open>C\<close> with the input \<open>A\<close> replaced: both runs plan \<open>B\<close> then \<open>C\<close>; the dry run
  creates nothing.
\<close>

theorem dry_run_plan_witness:
  "(case mimic_bundles (example_client []) example_specs
          (example_args\<lparr>old_output := Id ''C'', old_inputs := [Id ''A''],
             new_inputs := [Id ''A2''], depth := 2, dry_run := True\<rparr>) (Suc (Suc (Suc 0))) [] of
      Ok pd ld \<Rightarrow> map (\<lambda>entry. uuid (fst entry)) pd = [Id ''B'', Id ''C'']
         \<and> list_all (\<lambda>entry. uuid (snd entry) = NoId) pd
         \<and> filter is_create ld = []
    | _ \<Rightarrow> False)"
proof -
  let ?a = "example_args\<lparr>old_output := Id ''C'', old_inputs := [Id ''A''],
             new_inputs := [Id ''A2''], depth := 2\<rparr>"
  let ?real = "mimic_bundles (example_client []) example_specs (?a\<lparr>dry_run := False\<rparr>)
                 (Suc (Suc (Suc 0))) []"
  let ?dry = "mimic_bundles (example_client []) example_specs (?a\<lparr>dry_run := True\<rparr>)
                 (Suc (Suc (Suc 0))) []"
  have ev: "(case ?real of
      Ok pr lr \<Rightarrow> map (\<lambda>entry. uuid (fst entry)) pr = [Id ''B'', Id ''C''] | _ \<Rightarrow> False)"
    by (simp add: engine_defs example_defs numeral_2_eq_2)
  obtain pr lr where real: "?real = Ok pr lr"
    and olds: "map (\<lambda>entry. uuid (fst entry)) pr = [Id ''B'', Id ''C'']"
  proof (cases ?real)
    case (Ok pr lr)
    with ev that show ?thesis by simp
  next
    case (Err e s)
    with ev show ?thesis by simp
  next
    case OutOfFuel
    with ev show ?thesis by simp
  qed
  note th = dry_run_plan [where C = "example_client []" and specs = example_specs and a = ?a
      and n = "Suc (Suc (Suc 0))" and log = "[]"]
  from th [THEN conjunct2, THEN conjunct2, rule_format, OF real] obtain pd ld where
    d: "?dry = Ok pd ld" and same: "map fst pd = map fst pr" by blast
  from th [THEN conjunct1, rule_format, OF d] obtain cs where
    unset: "list_all (\<lambda>entry. uuid (snd entry) = NoId) pd"
    and ld: "ld = [] @ cs" "\<forall>c \<in> set cs. \<not> is_create c" by blast
  have "map (\<lambda>entry. uuid (fst entry)) pd = map uuid (map fst pd)" by simp
  also have "\<dots> = map (\<lambda>entry. uuid (fst entry)) pr" unfolding same by simp
  finally have olds': "map (\<lambda>entry. uuid (fst entry)) pd = [Id ''B'', Id ''C'']"
    using olds by simp
  from ld have "filter is_create ld = []" by (simp add: filter_empty_conv)
  with olds' unset d show ?thesis by simp
qed

text \<open>
  The claim as stated fails. Replaying the lone dataset \<open>D\<close>, the dry run returns a plan
  of one entry and the real run raises the usage error: there is no plan to compare.
  Replaying \<open>C\<close> with \<open>A\<close> replaced, the new description of \<open>C\<close> depends on \<open>new-b\<close> in the
  real run and on \<^verbatim>\<open>None\<close> in the dry run: the plans differ in more than the new ids.
\<close>

theorem dry_run_counterexample:
  "(case mimic_bundles (example_client []) example_specs
          (example_args\<lparr>old_output := Id ''D'', dry_run := True\<rparr>) (Suc 0) [] of
      Ok pd ld \<Rightarrow> map (\<lambda>entry. uuid (fst entry)) pd = [Id ''D''] | _ \<Rightarrow> False)
   \<and> (case mimic_bundles (example_client []) example_specs
          (example_args\<lparr>old_output := Id ''D'', dry_run := False\<rparr>) (Suc 0) [] of
      Err e lr \<Rightarrow> e = UsageError (not_make_or_run (Id ''D'')) | _ \<Rightarrow> False)
   \<and> (case mimic_bundles (example_client []) example_specs
          (example_args\<lparr>old_output := Id ''C'', old_inputs := [Id ''A''],
             new_inputs := [Id ''A2''], depth := 2, dry_run := True\<rparr>) (Suc (Suc (Suc 0))) [] of
      Ok pd ld \<Rightarrow> map (\<lambda>entry. map parent_uuid (dependencies (snd entry))) pd
                   = [[Id ''A2''], [NoId]] | _ \<Rightarrow> False)
   \<and> (case mimic_bundles (example_client []) example_specs
          (example_args\<lparr>old_output := Id ''C'', old_inputs := [Id ''A''],
             new_inputs := [Id ''A2''], depth := 2, dry_run := False\<rparr>) (Suc (Suc (Suc 0))) [] of
      Ok pr lr \<Rightarrow> map (\<lambda>entry. map parent_uuid (dependencies (snd entry))) pr
                   = [[Id ''A2''], [Id ''new-b'']] | _ \<Rightarrow> False)"
  by (simp add: engine_defs example_defs numeral_2_eq_2)

end
